theory Spec2Isabelle
  imports Main "HOL-Library.List_Lexorder" "HOL-Library.Char_ord"
begin

section \<open>Results of effectful code\<close>

text \<open>
  Every method of the two classes either returns, throws, or runs forever.
  A result is \<open>Some (Inr x)\<close> for a normal return, \<open>Some (Inl e)\<close> for a
  thrown error and \<open>None\<close> for a loop that never ends.
\<close>

datatype error =
    IndexOutOfBounds
  | FailedToFindIndex
  | NodeIsLast
  | WrongLength
  | UnknownValue
  | BadPath
  | TypeError
  | RangeError

type_synonym 'a res = "(error + 'a) option"

definition ok :: "'a \<Rightarrow> 'a res" where
  "ok x = Some (Inr x)"

definition err :: "error \<Rightarrow> 'a res" where
  "err e = Some (Inl e)"

definition bindR :: "'a res \<Rightarrow> ('a \<Rightarrow> 'b res) \<Rightarrow> 'b res" where
  "bindR m f = (case m of None \<Rightarrow> None | Some (Inl e) \<Rightarrow> Some (Inl e) | Some (Inr x) \<Rightarrow> f x)"

lemma bindR_mono [partial_function_mono]:
  assumes mf: "mono_option B" and mg: "\<And>y. mono_option (\<lambda>f. C y f)"
  shows "mono_option (\<lambda>f. bindR (B f) (\<lambda>y. C y f))"
proof -
  have eq: "\<And>f. bindR (B f) (\<lambda>y. C y f) =
      Option.bind (B f) (\<lambda>r. case r of Inl e \<Rightarrow> Some (Inl e) | Inr x \<Rightarrow> C x f)"
    by (simp add: bindR_def split: option.splits sum.splits)
  have mc: "mono_option (\<lambda>f. case r of Inl e \<Rightarrow> Some (Inl e) | Inr x \<Rightarrow> C x f)" for r
    by (cases r) (simp_all add: mg option.const_mono)
  show ?thesis
    unfolding eq
    by (intro partial_function_mono mf mc)
qed

lemma bindR_ok [simp]: "bindR (ok x) f = f x"
  by (simp add: bindR_def ok_def)

lemma bindR_Some_Inr [simp]: "bindR (Some (Inr x)) f = f x"
  by (simp add: bindR_def)

lemma bindR_Some_Inl [simp]: "bindR (Some (Inl e)) f = Some (Inl e)"
  by (simp add: bindR_def)

lemma bindR_err [simp]: "bindR (err e) f = err e"
  by (simp add: bindR_def err_def)

lemma bindR_None [simp]: "bindR None f = None"
  by (simp add: bindR_def)


section \<open>The split-append list manager (split_append_list.ts, the AVL version)\<close>

text \<open>
  Objects live in a heap: a total map from references (natural numbers) to node
  records, with the number of allocated objects. \<open>new Node(..)\<close> takes the next free
  reference. A field of type \<open>Node | null\<close> is a \<open>nat option\<close>. The values kept
  in the lists are references to the text CRDT's character nodes.
\<close>

record snode =
  bParent_s :: "nat option"
  bLeftChild_s :: "nat option"
  bRightChild_s :: "nat option"
  bHeight_s :: int
  value_s :: nat

record salm =
  snodes :: "nat \<Rightarrow> snode"
  scount :: nat
  nodeByValue_map :: "nat \<Rightarrow> nat option"

definition empty_salm :: salm where
  "empty_salm = \<lparr> snodes = (\<lambda>_. \<lparr> bParent_s = None, bLeftChild_s = None,
       bRightChild_s = None, bHeight_s = 0, value_s = 0 \<rparr>),
     scount = 0, nodeByValue_map = (\<lambda>_. None) \<rparr>"

definition supd :: "salm \<Rightarrow> nat \<Rightarrow> (snode \<Rightarrow> snode) \<Rightarrow> salm" where
  "supd s a f = s\<lparr> snodes := (snodes s)(a := f (snodes s a)) \<rparr>"

definition bIsLeftChild_s :: "salm \<Rightarrow> nat \<Rightarrow> bool" where
  "bIsLeftChild_s s a =
     (case bParent_s (snodes s a) of None \<Rightarrow> False
      | Some p \<Rightarrow> bLeftChild_s (snodes s p) = Some a)"

definition height :: "salm \<Rightarrow> nat option \<Rightarrow> int" where
  "height s p = (case p of None \<Rightarrow> - 1 | Some a \<Rightarrow> bHeight_s (snodes s a))"

definition bF_s :: "salm \<Rightarrow> nat \<Rightarrow> int" where
  "bF_s s a = height s (bRightChild_s (snodes s a)) - height s (bLeftChild_s (snodes s a))"

definition nodeByValue :: "salm \<Rightarrow> nat \<Rightarrow> nat res" where
  "nodeByValue s v = (case nodeByValue_map s v of None \<Rightarrow> err UnknownValue | Some a \<Rightarrow> ok a)"

definition createInternal :: "salm \<Rightarrow> nat \<Rightarrow> salm \<times> nat" where
  "createInternal s v =
     (let a = scount s in
      (s\<lparr> snodes := (snodes s)(a := \<lparr> bParent_s = None, bLeftChild_s = None,
            bRightChild_s = None, bHeight_s = 0, value_s = v \<rparr>),
          scount := Suc a,
          nodeByValue_map := (nodeByValue_map s)(v := Some a) \<rparr>, a))"

definition create :: "salm \<Rightarrow> nat \<Rightarrow> salm" where
  "create s v = fst (createInternal s v)"

definition updateBHeight :: "salm \<Rightarrow> nat \<Rightarrow> salm" where
  "updateBHeight s a =
     (let n = snodes s a in
      if bLeftChild_s n = None \<and> bRightChild_s n = None
      then supd s a (\<lambda>n. n\<lparr> bHeight_s := 0 \<rparr>)
      else supd s a (\<lambda>n. n\<lparr> bHeight_s := 1 +
             max (case bLeftChild_s n of None \<Rightarrow> 0 | Some l \<Rightarrow> bHeight_s (snodes s l))
                 (case bRightChild_s n of None \<Rightarrow> 0 | Some r \<Rightarrow> bHeight_s (snodes s r)) \<rparr>))"

text \<open>\<open>if (t !== null) t.bParent = X\<close>\<close>

definition set_parent_opt_s :: "salm \<Rightarrow> nat option \<Rightarrow> nat \<Rightarrow> salm" where
  "set_parent_opt_s s t X =
     (case t of None \<Rightarrow> s | Some c \<Rightarrow> supd s c (\<lambda>n. n\<lparr> bParent_s := Some X \<rparr>))"

text \<open>
  The rotations. \<open>X.bRightChild!\<close> asserts a reference that may be null; reading a
  field of null throws a TypeError.
\<close>

definition rotate_Left_s :: "salm \<Rightarrow> nat \<Rightarrow> (salm \<times> nat) res" where
  "rotate_Left_s s X =
     (case bRightChild_s (snodes s X) of None \<Rightarrow> err TypeError
      | Some Z \<Rightarrow>
         (let t23 = bLeftChild_s (snodes s Z);
              s = supd s X (\<lambda>n. n\<lparr> bRightChild_s := t23 \<rparr>);
              s = set_parent_opt_s s t23 X;
              s = supd s Z (\<lambda>n. n\<lparr> bLeftChild_s := Some X \<rparr>);
              s = supd s X (\<lambda>n. n\<lparr> bParent_s := Some Z \<rparr>);
              s = updateBHeight s X;
              s = updateBHeight s Z
          in ok (s, Z)))"

definition rotate_Right_s :: "salm \<Rightarrow> nat \<Rightarrow> (salm \<times> nat) res" where
  "rotate_Right_s s X =
     (case bLeftChild_s (snodes s X) of None \<Rightarrow> err TypeError
      | Some Z \<Rightarrow>
         (let t23 = bRightChild_s (snodes s Z);
              s = supd s X (\<lambda>n. n\<lparr> bLeftChild_s := t23 \<rparr>);
              s = set_parent_opt_s s t23 X;
              s = supd s Z (\<lambda>n. n\<lparr> bRightChild_s := Some X \<rparr>);
              s = supd s X (\<lambda>n. n\<lparr> bParent_s := Some Z \<rparr>);
              s = updateBHeight s X;
              s = updateBHeight s Z
          in ok (s, Z)))"

definition rotate_RightLeft_s :: "salm \<Rightarrow> nat \<Rightarrow> nat \<Rightarrow> (salm \<times> nat) res" where
  "rotate_RightLeft_s s X Z =
     (case bLeftChild_s (snodes s Z) of None \<Rightarrow> err TypeError
      | Some Y \<Rightarrow>
         (let t3 = bRightChild_s (snodes s Y);
              s = supd s Z (\<lambda>n. n\<lparr> bLeftChild_s := t3 \<rparr>);
              s = set_parent_opt_s s t3 Z;
              s = supd s Y (\<lambda>n. n\<lparr> bRightChild_s := Some Z \<rparr>);
              s = supd s Z (\<lambda>n. n\<lparr> bParent_s := Some Y \<rparr>);
              t2 = bLeftChild_s (snodes s Y);
              s = supd s X (\<lambda>n. n\<lparr> bRightChild_s := t2 \<rparr>);
              s = set_parent_opt_s s t2 X;
              s = supd s Y (\<lambda>n. n\<lparr> bLeftChild_s := Some X \<rparr>);
              s = supd s X (\<lambda>n. n\<lparr> bParent_s := Some Y \<rparr>);
              s = updateBHeight s X;
              s = updateBHeight s Z;
              s = updateBHeight s Y
          in ok (s, Y)))"

definition rotate_LeftRight_s :: "salm \<Rightarrow> nat \<Rightarrow> nat \<Rightarrow> (salm \<times> nat) res" where
  "rotate_LeftRight_s s X Z =
     (case bRightChild_s (snodes s Z) of None \<Rightarrow> err TypeError
      | Some Y \<Rightarrow>
         (let t3 = bLeftChild_s (snodes s Y);
              s = supd s Z (\<lambda>n. n\<lparr> bRightChild_s := t3 \<rparr>);
              s = set_parent_opt_s s t3 Z;
              s = supd s Y (\<lambda>n. n\<lparr> bLeftChild_s := Some Z \<rparr>);
              s = supd s Z (\<lambda>n. n\<lparr> bParent_s := Some Y \<rparr>);
              t2 = bRightChild_s (snodes s Y);
              s = supd s X (\<lambda>n. n\<lparr> bLeftChild_s := t2 \<rparr>);
              s = set_parent_opt_s s t2 X;
              s = supd s Y (\<lambda>n. n\<lparr> bRightChild_s := Some X \<rparr>);
              s = supd s X (\<lambda>n. n\<lparr> bParent_s := Some Y \<rparr>);
              s = updateBHeight s X;
              s = updateBHeight s Z;
              s = updateBHeight s Y
          in ok (s, Y)))"

text \<open>
  The tail of the loop body of \<open>rebalance\<close>, after a rotation returned \<open>N\<close>:
  \<open>N.bParent = G; if (G !== null) { if (X === G.bLeftChild) G.bLeftChild = N;
  else G.bRightChild = N; }\<close>.
\<close>

definition relink_s :: "salm \<Rightarrow> nat \<Rightarrow> nat option \<Rightarrow> nat \<Rightarrow> salm" where
  "relink_s s X G N =
     (let s = supd s N (\<lambda>n. n\<lparr> bParent_s := G \<rparr>) in
      case G of None \<Rightarrow> s
      | Some g \<Rightarrow>
          if bLeftChild_s (snodes s g) = Some X
          then supd s g (\<lambda>n. n\<lparr> bLeftChild_s := Some N \<rparr>)
          else supd s g (\<lambda>n. n\<lparr> bRightChild_s := Some N \<rparr>))"

text \<open>
  \<open>rebalance(node)\<close>: the loop \<open>for (let X = Z.bParent; X !== null; X = Z.bParent)\<close>,
  one call per iteration, with the current \<open>Z\<close>. The balance factor is computed from
  the stored heights.
\<close>

partial_function (option) rebalance_s :: "salm \<Rightarrow> nat \<Rightarrow> salm res" where
  "rebalance_s s Z =
     (case bParent_s (snodes s Z) of None \<Rightarrow> ok s
      | Some X \<Rightarrow>
          if bRightChild_s (snodes s X) = Some Z then
            (if bF_s s X > 0 then
               (let G = bParent_s (snodes s X) in
                bindR (if bF_s s Z < 0 then rotate_RightLeft_s s X Z else rotate_Left_s s X)
                  (\<lambda>(s, N). ok (relink_s s X G N)))
             else if bF_s s X < 0 then ok s
             else rebalance_s s X)
          else
            (if bF_s s X < 0 then
               (let G = bParent_s (snodes s X) in
                bindR (if bF_s s Z > 0 then rotate_LeftRight_s s X Z else rotate_Right_s s X)
                  (\<lambda>(s, N). ok (relink_s s X G N)))
             else if bF_s s X > 0 then ok s
             else rebalance_s s X))"

declare rebalance_s.simps [code]

text \<open>\<open>getEndNode\<close>: up to the root, then down to the rightmost descendant.\<close>

partial_function (option) getEndNode_up :: "salm \<Rightarrow> nat \<Rightarrow> nat res" where
  "getEndNode_up s current =
     (case bParent_s (snodes s current) of None \<Rightarrow> ok current
      | Some p \<Rightarrow> getEndNode_up s p)"

declare getEndNode_up.simps [code]

partial_function (option) getEndNode_down :: "salm \<Rightarrow> nat \<Rightarrow> nat res" where
  "getEndNode_down s current =
     (case bRightChild_s (snodes s current) of None \<Rightarrow> ok current
      | Some r \<Rightarrow> getEndNode_down s r)"

declare getEndNode_down.simps [code]

definition getEndNode :: "salm \<Rightarrow> nat \<Rightarrow> nat res" where
  "getEndNode s v =
     bindR (nodeByValue s v) (\<lambda>current.
     bindR (getEndNode_up s current) (\<lambda>current.
     getEndNode_down s current))"

definition getEnd :: "salm \<Rightarrow> nat \<Rightarrow> nat res" where
  "getEnd s v = bindR (getEndNode s v) (\<lambda>a. ok (value_s (snodes s a)))"

text \<open>The height walk of \<open>append\<close>: \<open>while (current !== null) { .. }\<close>.\<close>

partial_function (option) append_heights :: "salm \<Rightarrow> nat option \<Rightarrow> int \<Rightarrow> salm res" where
  "append_heights s current heightFromNode =
     (case current of None \<Rightarrow> ok s
      | Some c \<Rightarrow>
          append_heights
            (supd s c (\<lambda>n. n\<lparr> bHeight_s := max (bHeight_s n) heightFromNode \<rparr>))
            (bParent_s (snodes s c)) (heightFromNode + 1))"

declare append_heights.simps [code]

definition append :: "salm \<Rightarrow> nat \<Rightarrow> nat \<Rightarrow> salm res" where
  "append s listEntry v =
     (let (s, node) = createInternal s v in
      bindR (getEndNode s listEntry) (\<lambda>parent.
        let s = supd s parent (\<lambda>n. n\<lparr> bRightChild_s := Some node \<rparr>);
            s = supd s node (\<lambda>n. n\<lparr> bParent_s := Some parent \<rparr>)
        in bindR (append_heights s (Some parent) 1) (\<lambda>s. rebalance_s s node)))"

definition expose :: "salm \<Rightarrow> nat \<Rightarrow> nat option \<times> nat \<times> nat option" where
  "expose s a = (bLeftChild_s (snodes s a), value_s (snodes s a), bRightChild_s (snodes s a))"

definition nodeWithChildren :: "salm \<Rightarrow> nat option \<Rightarrow> nat \<Rightarrow> nat option \<Rightarrow> salm \<times> nat" where
  "nodeWithChildren s l k r =
     (let (s, node) = createInternal s k;
          s = supd s node (\<lambda>n. n\<lparr> bLeftChild_s := l \<rparr>);
          s = set_parent_opt_s s l node;
          s = supd s node (\<lambda>n. n\<lparr> bRightChild_s := r \<rparr>);
          s = set_parent_opt_s s r node;
          s = updateBHeight s node
      in (s, node))"

text \<open>
  \<open>joinRightAVL\<close> and \<open>joinLeftAVL\<close>. \<open>c!\<close> and \<open>Tprime!\<close> assert non-null; the
  first field read of a null reference throws a TypeError.
\<close>

partial_function (option) joinRightAVL :: "salm \<Rightarrow> nat \<Rightarrow> nat \<Rightarrow> nat option \<Rightarrow> (salm \<times> nat) res" where
  "joinRightAVL s TL k TR =
     (let (l, kprime, c) = expose s TL in
      if height s c \<le> height s TR + 1 then
        (let (s, Tprime) = nodeWithChildren s c k TR in
         if height s (Some Tprime) \<le> height s l + 1
         then ok (nodeWithChildren s l kprime (Some Tprime))
         else bindR (rotate_Right_s s Tprime) (\<lambda>(s, t).
                let (s, n) = nodeWithChildren s l kprime (Some t) in rotate_Left_s s n))
      else
        (case c of None \<Rightarrow> err TypeError
         | Some c' \<Rightarrow>
            bindR (joinRightAVL s c' k TR) (\<lambda>(s, Tprime).
              let (s, Tprimeprime) = nodeWithChildren s l kprime (Some Tprime) in
              if height s (Some Tprime) \<le> height s l + 1 then ok (s, Tprimeprime)
              else rotate_Left_s s Tprimeprime)))"

declare joinRightAVL.simps [code]

partial_function (option) joinLeftAVL :: "salm \<Rightarrow> nat option \<Rightarrow> nat \<Rightarrow> nat \<Rightarrow> (salm \<times> nat) res" where
  "joinLeftAVL s TL k TR =
     (let (c, kprime, r) = expose s TR in
      if height s c \<le> height s TL + 1 then
        (let (s, Tprime) = nodeWithChildren s TL k c in
         if height s (Some Tprime) \<le> height s r + 1
         then ok (nodeWithChildren s (Some Tprime) kprime r)
         else bindR (rotate_Left_s s Tprime) (\<lambda>(s, t).
                let (s, n) = nodeWithChildren s (Some t) kprime r in rotate_Right_s s n))
      else
        (case c of None \<Rightarrow> err TypeError
         | Some c' \<Rightarrow>
            bindR (joinLeftAVL s TL k c') (\<lambda>(s, Tprime).
              let (s, Tprimeprime) = nodeWithChildren s (Some Tprime) kprime r in
              if height s (Some Tprime) \<le> height s r + 1 then ok (s, Tprimeprime)
              else rotate_Right_s s Tprimeprime)))"

declare joinLeftAVL.simps [code]


definition join :: "salm \<Rightarrow> nat option \<Rightarrow> nat \<Rightarrow> nat option \<Rightarrow> (salm \<times> nat) res" where
  "join s TL k TR =
     (if height s TL > height s TR + 1 then
        (case TL of None \<Rightarrow> err TypeError | Some TL' \<Rightarrow> joinRightAVL s TL' k TR)
      else if height s TR > height s TL + 1 then
        (case TR of None \<Rightarrow> err TypeError | Some TR' \<Rightarrow> joinLeftAVL s TL k TR')
      else ok (nodeWithChildren s TL k TR))"

text \<open>
  The base case of \<open>splitInternal\<close> erases the old parent of each child:
  \<open>if (L !== null && L.bParent !== null) { if (L.bIsLeftChild) L.bParent.bLeftChild = null;
  L.bParent = null; }\<close>.
\<close>

definition erase_parent :: "salm \<Rightarrow> nat option \<Rightarrow> salm" where
  "erase_parent s L =
     (case L of None \<Rightarrow> s
      | Some l \<Rightarrow>
         (case bParent_s (snodes s l) of None \<Rightarrow> s
          | Some p \<Rightarrow>
             (let s = (if bIsLeftChild_s s l
                       then supd s p (\<lambda>n. n\<lparr> bLeftChild_s := None \<rparr>) else s)
              in supd s l (\<lambda>n. n\<lparr> bParent_s := None \<rparr>))))"

text \<open>
  \<open>splitInternal(T, path)\<close>. The array \<open>path\<close> is used as a stack (\<open>push\<close> in
  \<open>split\<close>, \<open>pop\<close> here); the model keeps its top at the head of the list.
\<close>

fun splitInternal :: "salm \<Rightarrow> nat \<Rightarrow> nat list \<Rightarrow> (salm \<times> nat option \<times> nat option) res" where
  "splitInternal s T [] =
     (let (L, m, R) = expose s T;
          s = erase_parent s L;
          s = erase_parent s R
      in ok (s, L, R))"
| "splitInternal s T (nextNode # path) =
     (let (L, m, R) = expose s T in
      if Some nextNode = L then
        bindR (splitInternal s nextNode path) (\<lambda>(s, Lprime, Rprime).
          bindR (join s Rprime m R) (\<lambda>(s, j). ok (s, Lprime, Some j)))
      else if Some nextNode = R then
        bindR (splitInternal s nextNode path) (\<lambda>(s, Lprime, Rprime).
          bindR (join s L m Lprime) (\<lambda>(s, j). ok (s, Some j, Rprime)))
      else err BadPath)"

text \<open>The first loop of \<open>split\<close>: the path from the node up to its root.\<close>

partial_function (option) split_path :: "salm \<Rightarrow> nat \<Rightarrow> nat list \<Rightarrow> (nat \<times> nat list) res" where
  "split_path s current path =
     (case bParent_s (snodes s current) of None \<Rightarrow> ok (current, path)
      | Some p \<Rightarrow> split_path s p (current # path))"

declare split_path.simps [code]

definition split :: "salm \<Rightarrow> nat \<Rightarrow> salm res" where
  "split s v =
     bindR (nodeByValue s v) (\<lambda>node.
     bindR (split_path s node []) (\<lambda>(root, path).
     bindR (splitInternal s root path) (\<lambda>(s, left, right).
       case left of
         Some l \<Rightarrow> append s (value_s (snodes s l)) v
       | None \<Rightarrow> ok (create s v))))"


section \<open>The text CRDT (text_logn.ts, class CTextLogn)\<close>

record node =
  id_n :: string
  parent :: "nat option"
  isLeftChild :: bool
  value_n :: string
  isPresent :: bool
  leftChildren :: "nat list"
  rightChildren :: "nat list"
  bParent :: "nat option"
  bLeftChild :: "nat option"
  bRightChild :: "nat option"
  bF :: int
  bCount :: int

record state =
  nodes :: "nat \<Rightarrow> node"
  ncount :: nat
  nodesByID :: "string \<Rightarrow> nat option"
  rootNode :: nat
  bRootNode :: nat
  leftSALM :: salm
  rightSALM :: salm

datatype message =
    InsertMessage string string bool string
  | DeleteMessage string

datatype 'm event =
    InsertEvent int int 'm
  | DeleteEvent int int string 'm

datatype LastWalked = PARENT | LEFT_CHILD | RIGHT_CHILD

text \<open>\<open>new Node(id, parent, isLeftChild, value, isPresent)\<close> with the field initialisers.\<close>

definition new_Node :: "string \<Rightarrow> nat option \<Rightarrow> bool \<Rightarrow> string \<Rightarrow> bool \<Rightarrow> node" where
  "new_Node i p l v pr =
     \<lparr> id_n = i, parent = p, isLeftChild = l, value_n = v, isPresent = pr,
       leftChildren = [], rightChildren = [],
       bParent = None, bLeftChild = None, bRightChild = None, bF = 0, bCount = 0 \<rparr>"

text \<open>The constructor: the root node has the empty id and is not present.\<close>

definition init_state :: state where
  "init_state =
     \<lparr> nodes = (\<lambda>_. new_Node [] None False [] False),
       ncount = 1,
       nodesByID = (\<lambda>_. None)([] := Some 0),
       rootNode = 0,
       bRootNode = 0,
       leftSALM = create empty_salm 0,
       rightSALM = create empty_salm 0 \<rparr>"

definition upd :: "state \<Rightarrow> nat \<Rightarrow> (node \<Rightarrow> node) \<Rightarrow> state" where
  "upd s a f = s\<lparr> nodes := (nodes s)(a := f (nodes s a)) \<rparr>"

definition children :: "node \<Rightarrow> bool \<Rightarrow> nat list" where
  "children n left = (if left then leftChildren n else rightChildren n)"

definition bIsLeftChild :: "state \<Rightarrow> nat \<Rightarrow> bool" where
  "bIsLeftChild s a =
     (case bParent (nodes s a) of None \<Rightarrow> False
      | Some p \<Rightarrow> bLeftChild (nodes s p) = Some a)"

text \<open>\<open>node?.bCount ?? 0\<close>\<close>

definition bCount_opt :: "state \<Rightarrow> nat option \<Rightarrow> int" where
  "bCount_opt s p = (case p of None \<Rightarrow> 0 | Some a \<Rightarrow> bCount (nodes s a))"

definition updateBCount :: "state \<Rightarrow> nat \<Rightarrow> state" where
  "updateBCount s a =
     upd s a (\<lambda>n. n\<lparr> bCount :=
        bCount_opt s (bLeftChild n) + (if isPresent n then 1 else 0) + bCount_opt s (bRightChild n) \<rparr>)"

definition set_bParent_opt :: "state \<Rightarrow> nat option \<Rightarrow> nat \<Rightarrow> state" where
  "set_bParent_opt s t X =
     (case t of None \<Rightarrow> s | Some c \<Rightarrow> upd s c (\<lambda>n. n\<lparr> bParent := Some X \<rparr>))"

definition rotate_Left :: "state \<Rightarrow> nat \<Rightarrow> nat \<Rightarrow> state \<times> nat" where
  "rotate_Left s X Z =
     (let t23 = bLeftChild (nodes s Z);
          s = upd s X (\<lambda>n. n\<lparr> bRightChild := t23 \<rparr>);
          s = set_bParent_opt s t23 X;
          s = upd s Z (\<lambda>n. n\<lparr> bLeftChild := Some X \<rparr>);
          s = upd s X (\<lambda>n. n\<lparr> bParent := Some Z \<rparr>);
          s = (if bF (nodes s Z) = 0
               then upd (upd s X (\<lambda>n. n\<lparr> bF := 1 \<rparr>)) Z (\<lambda>n. n\<lparr> bF := - 1 \<rparr>)
               else upd (upd s X (\<lambda>n. n\<lparr> bF := 0 \<rparr>)) Z (\<lambda>n. n\<lparr> bF := 0 \<rparr>));
          s = updateBCount s X;
          s = updateBCount s Z
      in (s, Z))"

definition rotate_Right :: "state \<Rightarrow> nat \<Rightarrow> nat \<Rightarrow> state \<times> nat" where
  "rotate_Right s X Z =
     (let t23 = bRightChild (nodes s Z);
          s = upd s X (\<lambda>n. n\<lparr> bLeftChild := t23 \<rparr>);
          s = set_bParent_opt s t23 X;
          s = upd s Z (\<lambda>n. n\<lparr> bRightChild := Some X \<rparr>);
          s = upd s X (\<lambda>n. n\<lparr> bParent := Some Z \<rparr>);
          s = (if bF (nodes s Z) = 0
               then upd (upd s X (\<lambda>n. n\<lparr> bF := 1 \<rparr>)) Z (\<lambda>n. n\<lparr> bF := - 1 \<rparr>)
               else upd (upd s X (\<lambda>n. n\<lparr> bF := 0 \<rparr>)) Z (\<lambda>n. n\<lparr> bF := 0 \<rparr>));
          s = updateBCount s X;
          s = updateBCount s Z
      in (s, Z))"

text \<open>
  The balance factors after a double rotation, the same statements in
  \<open>rotate_RightLeft\<close> and \<open>rotate_LeftRight\<close>.
\<close>

definition double_bF :: "state \<Rightarrow> nat \<Rightarrow> nat \<Rightarrow> nat \<Rightarrow> state" where
  "double_bF s X Z Y =
     (let s = (if bF (nodes s Y) = 0
               then upd (upd s X (\<lambda>n. n\<lparr> bF := 0 \<rparr>)) Z (\<lambda>n. n\<lparr> bF := 0 \<rparr>)
               else if bF (nodes s Y) > 0
               then upd (upd s X (\<lambda>n. n\<lparr> bF := - 1 \<rparr>)) Z (\<lambda>n. n\<lparr> bF := 0 \<rparr>)
               else upd (upd s X (\<lambda>n. n\<lparr> bF := 0 \<rparr>)) Z (\<lambda>n. n\<lparr> bF := 1 \<rparr>))
      in upd s Y (\<lambda>n. n\<lparr> bF := 0 \<rparr>))"

definition rotate_RightLeft :: "state \<Rightarrow> nat \<Rightarrow> nat \<Rightarrow> (state \<times> nat) res" where
  "rotate_RightLeft s X Z =
     (case bLeftChild (nodes s Z) of None \<Rightarrow> err TypeError
      | Some Y \<Rightarrow>
         (let t3 = bRightChild (nodes s Y);
              s = upd s Z (\<lambda>n. n\<lparr> bLeftChild := t3 \<rparr>);
              s = set_bParent_opt s t3 Z;
              s = upd s Y (\<lambda>n. n\<lparr> bRightChild := Some Z \<rparr>);
              s = upd s Z (\<lambda>n. n\<lparr> bParent := Some Y \<rparr>);
              t2 = bLeftChild (nodes s Y);
              s = upd s X (\<lambda>n. n\<lparr> bRightChild := t2 \<rparr>);
              s = set_bParent_opt s t2 X;
              s = upd s Y (\<lambda>n. n\<lparr> bLeftChild := Some X \<rparr>);
              s = upd s X (\<lambda>n. n\<lparr> bParent := Some Y \<rparr>);
              s = double_bF s X Z Y;
              s = updateBCount s X;
              s = updateBCount s Z;
              s = updateBCount s Y
          in ok (s, Y)))"

definition rotate_LeftRight :: "state \<Rightarrow> nat \<Rightarrow> nat \<Rightarrow> (state \<times> nat) res" where
  "rotate_LeftRight s X Z =
     (case bRightChild (nodes s Z) of None \<Rightarrow> err TypeError
      | Some Y \<Rightarrow>
         (let t3 = bLeftChild (nodes s Y);
              s = upd s Z (\<lambda>n. n\<lparr> bRightChild := t3 \<rparr>);
              s = set_bParent_opt s t3 Z;
              s = upd s Y (\<lambda>n. n\<lparr> bLeftChild := Some Z \<rparr>);
              s = upd s Z (\<lambda>n. n\<lparr> bParent := Some Y \<rparr>);
              t2 = bRightChild (nodes s Y);
              s = upd s X (\<lambda>n. n\<lparr> bLeftChild := t2 \<rparr>);
              s = set_bParent_opt s t2 X;
              s = upd s Y (\<lambda>n. n\<lparr> bRightChild := Some X \<rparr>);
              s = upd s X (\<lambda>n. n\<lparr> bParent := Some Y \<rparr>);
              s = double_bF s X Z Y;
              s = updateBCount s X;
              s = updateBCount s Z;
              s = updateBCount s Y
          in ok (s, Y)))"

text \<open>
  After a rotation in \<open>rebalance\<close>: \<open>N.bParent = G; if (G !== null) { if (X ===
  G.bLeftChild) G.bLeftChild = N; else G.bRightChild = N; } else this.bRootNode = N;\<close>.
\<close>

definition relink :: "state \<Rightarrow> nat \<Rightarrow> nat option \<Rightarrow> nat \<Rightarrow> state" where
  "relink s X G N =
     (let s = upd s N (\<lambda>n. n\<lparr> bParent := G \<rparr>) in
      case G of None \<Rightarrow> s\<lparr> bRootNode := N \<rparr>
      | Some g \<Rightarrow>
          if bLeftChild (nodes s g) = Some X
          then upd s g (\<lambda>n. n\<lparr> bLeftChild := Some N \<rparr>)
          else upd s g (\<lambda>n. n\<lparr> bRightChild := Some N \<rparr>))"

text \<open>\<open>rebalance(node)\<close>: one call per iteration of the loop, with the current \<open>Z\<close>.\<close>

partial_function (option) rebalance :: "state \<Rightarrow> nat \<Rightarrow> state res" where
  "rebalance s Z =
     (case bParent (nodes s Z) of None \<Rightarrow> ok s
      | Some X \<Rightarrow>
          if bRightChild (nodes s X) = Some Z then
            (if bF (nodes s X) > 0 then
               (let G = bParent (nodes s X) in
                bindR (if bF (nodes s Z) < 0 then rotate_RightLeft s X Z
                       else ok (rotate_Left s X Z))
                  (\<lambda>(s, N). ok (relink s X G N)))
             else if bF (nodes s X) < 0 then ok (upd s X (\<lambda>n. n\<lparr> bF := 0 \<rparr>))
             else rebalance (upd s X (\<lambda>n. n\<lparr> bF := 1 \<rparr>)) X)
          else
            (if bF (nodes s X) < 0 then
               (let G = bParent (nodes s X) in
                bindR (if bF (nodes s Z) > 0 then rotate_LeftRight s X Z
                       else ok (rotate_Right s X Z))
                  (\<lambda>(s, N). ok (relink s X G N)))
             else if bF (nodes s X) > 0 then ok (upd s X (\<lambda>n. n\<lparr> bF := 0 \<rparr>))
             else rebalance (upd s X (\<lambda>n. n\<lparr> bF := - 1 \<rparr>)) X))"

declare rebalance.simps [code]


text \<open>
  The sibling scan of \<open>receivePrimitive\<close>:
  \<open>for (; i < siblings.length; i++) { if (node.id < siblings[i].id) break; }\<close>.
  JavaScript compares strings lexicographically.
\<close>

fun siblingIndex :: "state \<Rightarrow> string \<Rightarrow> nat list \<Rightarrow> nat" where
  "siblingIndex s k [] = 0"
| "siblingIndex s k (c # cs) =
     (if k < id_n (nodes s c) then 0 else Suc (siblingIndex s k cs))"

text \<open>
  \<open>getNeighbor(node, siblings, i)\<close>. An index past the end of \<open>siblings\<close> reads
  \<open>undefined\<close>, which the list manager does not know.
\<close>

definition getNeighbor :: "state \<Rightarrow> nat \<Rightarrow> nat list \<Rightarrow> nat \<Rightarrow> (nat option \<times> nat option) res" where
  "getNeighbor s node siblings i =
     (if isLeftChild (nodes s node) then
        (if int i = int (length siblings) - 1 then ok (None, parent (nodes s node))
         else if i + 1 < length siblings
         then bindR (getEnd (leftSALM s) (siblings ! (i + 1))) (\<lambda>e. ok (None, Some e))
         else err UnknownValue)
      else
        (if i = 0 then ok (parent (nodes s node), None)
         else if i - 1 < length siblings
         then bindR (getEnd (rightSALM s) (siblings ! (i - 1))) (\<lambda>e. ok (Some e, None))
         else err UnknownValue))"

text \<open>\<open>while (current.bLeftChild !== null) current = current.bLeftChild;\<close> and its mirror.\<close>

partial_function (option) descend_left :: "state \<Rightarrow> nat \<Rightarrow> nat res" where
  "descend_left s current =
     (case bLeftChild (nodes s current) of None \<Rightarrow> ok current
      | Some l \<Rightarrow> descend_left s l)"

declare descend_left.simps [code]

partial_function (option) descend_right :: "state \<Rightarrow> nat \<Rightarrow> nat res" where
  "descend_right s current =
     (case bRightChild (nodes s current) of None \<Rightarrow> ok current
      | Some r \<Rightarrow> descend_right s r)"

declare descend_right.simps [code]

text \<open>Insertion into the balanced tree, next to the neighbour.\<close>

definition attach :: "state \<Rightarrow> nat \<Rightarrow> nat option \<Rightarrow> nat option \<Rightarrow> state res" where
  "attach s node predecessor successor =
     (case predecessor of
        Some p \<Rightarrow>
          (case bRightChild (nodes s p) of
             None \<Rightarrow>
               ok (upd (upd s p (\<lambda>n. n\<lparr> bRightChild := Some node \<rparr>))
                     node (\<lambda>n. n\<lparr> bParent := Some p \<rparr>))
           | Some r \<Rightarrow>
               bindR (descend_left s r) (\<lambda>current.
                 ok (upd (upd s current (\<lambda>n. n\<lparr> bLeftChild := Some node \<rparr>))
                       node (\<lambda>n. n\<lparr> bParent := Some current \<rparr>))))
      | None \<Rightarrow>
          (case successor of
             Some sc \<Rightarrow>
               (case bLeftChild (nodes s sc) of
                  None \<Rightarrow>
                    ok (upd (upd s sc (\<lambda>n. n\<lparr> bLeftChild := Some node \<rparr>))
                          node (\<lambda>n. n\<lparr> bParent := Some sc \<rparr>))
                | Some l \<Rightarrow>
                    bindR (descend_right s l) (\<lambda>current.
                      ok (upd (upd s current (\<lambda>n. n\<lparr> bRightChild := Some node \<rparr>))
                            node (\<lambda>n. n\<lparr> bParent := Some current \<rparr>))))
           | None \<Rightarrow> ok s))"

text \<open>
  The two walks over the balanced ancestors:
  \<open>for (let a = node; a !== null; a = a.bParent) a.bCount++\<close> (or \<open>--\<close>).
\<close>

partial_function (option) add_bCount :: "state \<Rightarrow> nat option \<Rightarrow> int \<Rightarrow> state res" where
  "add_bCount s ancestor d =
     (case ancestor of None \<Rightarrow> ok s
      | Some a \<Rightarrow>
          add_bCount (upd s a (\<lambda>n. n\<lparr> bCount := bCount n + d \<rparr>)) (bParent (nodes s a)) d)"

declare add_bCount.simps [code]

text \<open>The list manager updates at the end of the insert case.\<close>

definition update_SALMs :: "state \<Rightarrow> nat \<Rightarrow> nat \<Rightarrow> nat list \<Rightarrow> nat \<Rightarrow> state res" where
  "update_SALMs s node par siblings i =
     (if isLeftChild (nodes s node) then
        bindR (if i = 0 then
                 bindR (if length siblings \<ge> 2 then split (leftSALM s) par else ok (leftSALM s))
                   (\<lambda>l. append l par node)
               else ok (create (leftSALM s) node))
          (\<lambda>l. ok (s\<lparr> leftSALM := l, rightSALM := create (rightSALM s) node \<rparr>))
      else
        bindR (if int i = int (length siblings) - 1 then
                 bindR (if length siblings \<ge> 2 then split (rightSALM s) par else ok (rightSALM s))
                   (\<lambda>r. append r par node)
               else ok (create (rightSALM s) node))
          (\<lambda>r. ok (s\<lparr> rightSALM := r, leftSALM := create (leftSALM s) node \<rparr>)))"

text \<open>\<open>nodeToIndex\<close>: the loop \<open>while (curParent !== null)\<close>.\<close>

partial_function (option) nodeToIndex_loop :: "state \<Rightarrow> nat \<Rightarrow> nat option \<Rightarrow> int \<Rightarrow> int res" where
  "nodeToIndex_loop s curNode curParent geIndex =
     (case curParent of None \<Rightarrow> ok geIndex
      | Some p \<Rightarrow>
          nodeToIndex_loop s p (bParent (nodes s p))
            (if \<not> bIsLeftChild s curNode
             then geIndex + bCount_opt s (bLeftChild (nodes s p))
                    + (if isPresent (nodes s p) then 1 else 0)
             else geIndex))"

declare nodeToIndex_loop.simps [code]

definition nodeToIndex :: "state \<Rightarrow> nat \<Rightarrow> (int \<times> bool) res" where
  "nodeToIndex s node =
     bindR (nodeToIndex_loop s node (bParent (nodes s node))
              (bCount_opt s (bLeftChild (nodes s node))))
       (\<lambda>geIndex. ok (geIndex, isPresent (nodes s node)))"

text \<open>
  \<open>receivePrimitive(message, meta)\<close>. \<open>nodesByID.get(..)!\<close> is \<open>undefined\<close> for an
  unknown id, and the first field read of it throws a TypeError. The emitted event
  is returned with the new state.
\<close>

definition receive_insert :: "state \<Rightarrow> string \<Rightarrow> string \<Rightarrow> bool \<Rightarrow> string \<Rightarrow> 'm \<Rightarrow> (state \<times> 'm event option) res" where
  "receive_insert s i parentID isLeft v meta =
     (case nodesByID s parentID of None \<Rightarrow> err TypeError
      | Some par \<Rightarrow>
         (let node = ncount s;
              s = s\<lparr> nodes := (nodes s)(node := new_Node i (Some par) isLeft v True),
                     ncount := Suc node,
                     nodesByID := (nodesByID s)(i := Some node) \<rparr>;
              siblings = children (nodes s par) isLeft;
              k = siblingIndex s i siblings;
              siblings = take k siblings @ [node] @ drop k siblings;
              s = (if isLeft then upd s par (\<lambda>n. n\<lparr> leftChildren := siblings \<rparr>)
                   else upd s par (\<lambda>n. n\<lparr> rightChildren := siblings \<rparr>))
          in
          bindR (getNeighbor s node siblings k) (\<lambda>(predecessor, successor).
          bindR (attach s node predecessor successor) (\<lambda>s.
          bindR (add_bCount s (Some node) 1) (\<lambda>s.
          bindR (rebalance s node) (\<lambda>s.
          bindR (update_SALMs s node par siblings k) (\<lambda>s.
          bindR (nodeToIndex s node) (\<lambda>(startIndex, _).
            ok (s, Some (InsertEvent startIndex 1 meta))))))))))"

definition receive_delete :: "state \<Rightarrow> string \<Rightarrow> 'm \<Rightarrow> (state \<times> 'm event option) res" where
  "receive_delete s i meta =
     (case nodesByID s i of None \<Rightarrow> err TypeError
      | Some node \<Rightarrow>
          if isPresent (nodes s node) then
            bindR (nodeToIndex s node) (\<lambda>(index, _).
              let s = upd s node (\<lambda>n. n\<lparr> isPresent := False \<rparr>) in
              bindR (add_bCount s (Some node) (- 1)) (\<lambda>s.
                ok (s, Some (DeleteEvent index 1 (value_n (nodes s node)) meta))))
          else ok (s, None))"

fun receivePrimitive :: "state \<Rightarrow> message \<Rightarrow> 'm \<Rightarrow> (state \<times> 'm event option) res" where
  "receivePrimitive s (InsertMessage i parentID isLeft v) meta =
     receive_insert s i parentID isLeft v meta"
| "receivePrimitive s (DeleteMessage i) meta = receive_delete s i meta"


definition length_t :: "state \<Rightarrow> int" where
  "length_t s = bCount (nodes s (bRootNode s))"

text \<open>\<open>indexToNode\<close>: the loop \<open>for (;;)\<close>, one call per iteration.\<close>

partial_function (option) indexToNode_loop :: "state \<Rightarrow> int \<Rightarrow> nat \<Rightarrow> nat res" where
  "indexToNode_loop s remaining current =
     (let left = bLeftChild (nodes s current);
          continue_left = (case left of None \<Rightarrow> None
                           | Some child \<Rightarrow>
                               if remaining < bCount (nodes s child) then Some child else None)
      in
      case continue_left of
        Some child \<Rightarrow> indexToNode_loop s remaining child
      | None \<Rightarrow>
         (let remaining = remaining - bCount_opt s left in
          if isPresent (nodes s current) \<and> remaining = 0 then ok current
          else
            (let remaining = (if isPresent (nodes s current) then remaining - 1 else remaining) in
             case bRightChild (nodes s current) of None \<Rightarrow> err FailedToFindIndex
             | Some r \<Rightarrow>
                 if bCount (nodes s r) < remaining then err FailedToFindIndex
                 else indexToNode_loop s remaining r)))"

declare indexToNode_loop.simps [code]

definition indexToNode :: "state \<Rightarrow> int \<Rightarrow> nat res" where
  "indexToNode s index =
     (if index < 0 \<or> index \<ge> length_t s then err IndexOutOfBounds
      else indexToNode_loop s index (bRootNode s))"

text \<open>\<open>nextNode\<close>: the upward loop of the second branch.\<close>

partial_function (option) nextNode_up :: "state \<Rightarrow> nat \<Rightarrow> nat res" where
  "nextNode_up s current =
     (case bParent (nodes s current) of
        None \<Rightarrow> err NodeIsLast
      | Some p \<Rightarrow> if bIsLeftChild s current then ok p else nextNode_up s p)"

declare nextNode_up.simps [code]

definition nextNode :: "state \<Rightarrow> nat \<Rightarrow> nat res" where
  "nextNode s node =
     (case bRightChild (nodes s node) of
        Some r \<Rightarrow> descend_left s r
      | None \<Rightarrow> nextNode_up s node)"

text \<open>
  \<open>toString\<close>. \<open>new Array<string>(this.length)\<close> has \<open>length\<close> empty slots (and
  throws a RangeError for a negative length); \<open>push\<close> appends after them;
  \<open>join("")\<close> reads an empty slot as the empty string.
\<close>

partial_function (option) toString_walk :: "state \<Rightarrow> nat option \<Rightarrow> LastWalked \<Rightarrow> string option list \<Rightarrow> string option list res" where
  "toString_walk s node lastWalked vals =
     (case node of None \<Rightarrow> ok vals
      | Some n \<Rightarrow>
         (case lastWalked of
            PARENT \<Rightarrow>
              (case bLeftChild (nodes s n) of
                 None \<Rightarrow> toString_walk s (Some n) LEFT_CHILD vals
               | Some l \<Rightarrow>
                   if bCount (nodes s l) \<noteq> 0 then toString_walk s (Some l) PARENT vals
                   else toString_walk s (Some n) LEFT_CHILD vals)
          | LEFT_CHILD \<Rightarrow>
              (let vals = (if isPresent (nodes s n) then vals @ [Some (value_n (nodes s n))]
                           else vals) in
               case bRightChild (nodes s n) of
                 None \<Rightarrow> toString_walk s (Some n) RIGHT_CHILD vals
               | Some r \<Rightarrow>
                   if bCount (nodes s r) \<noteq> 0 then toString_walk s (Some r) PARENT vals
                   else toString_walk s (Some n) RIGHT_CHILD vals)
          | RIGHT_CHILD \<Rightarrow>
              toString_walk s (bParent (nodes s n))
                (if bIsLeftChild s n then LEFT_CHILD else RIGHT_CHILD) vals))"

declare toString_walk.simps [code]

definition join_values :: "string option list \<Rightarrow> string" where
  "join_values vals = concat (map (\<lambda>v. case v of None \<Rightarrow> [] | Some x \<Rightarrow> x) vals)"

definition toString :: "state \<Rightarrow> string res" where
  "toString s =
     (if length_t s < 0 then err RangeError
      else
        bindR (toString_walk s (Some (bRootNode s)) PARENT (replicate (nat (length_t s)) None))
          (\<lambda>vals.
             let ans = join_values vals in
             if int (length ans) \<noteq> length_t s then err WrongLength else ok ans))"

definition getPosition :: "state \<Rightarrow> int \<Rightarrow> string res" where
  "getPosition s index = bindR (indexToNode s index) (\<lambda>a. ok (id_n (nodes s a)))"

definition findPosition :: "state \<Rightarrow> string \<Rightarrow> (int \<times> bool) res" where
  "findPosition s position =
     (case nodesByID s position of None \<Rightarrow> err TypeError | Some a \<Rightarrow> nodeToIndex s a)"

text \<open>
  The local operations. \<open>sendPrimitive\<close> belongs to the Collabs runtime, which
  echoes a local message to \<open>receivePrimitive\<close> of the sender before it returns;
  \<open>getUID\<close> is the runtime's too, and the fresh id is a parameter here.
\<close>

definition insertOne :: "state \<Rightarrow> int \<Rightarrow> string \<Rightarrow> string \<Rightarrow> 'm \<Rightarrow> (state \<times> message \<times> 'm event option) res" where
  "insertOne s index char uid meta =
     bindR (if index = 0 then ok (rootNode s) else indexToNode s (index - 1)) (\<lambda>leftOrigin.
     bindR (if length (rightChildren (nodes s leftOrigin)) \<noteq> 0
            then bindR (nextNode s leftOrigin) (\<lambda>p. ok (p, True))
            else ok (leftOrigin, False)) (\<lambda>(par, isLeft).
       let message = InsertMessage uid (id_n (nodes s par)) isLeft char in
       bindR (receivePrimitive s message meta) (\<lambda>(s, e). ok (s, message, e))))"

definition deleteOne :: "state \<Rightarrow> int \<Rightarrow> 'm \<Rightarrow> (state \<times> message \<times> 'm event option) res" where
  "deleteOne s index meta =
     bindR (indexToNode s index) (\<lambda>a.
       let message = DeleteMessage (id_n (nodes s a)) in
       bindR (receivePrimitive s message meta) (\<lambda>(s, e). ok (s, message, e)))"

text \<open>\<open>delete(startIndex, count)\<close>: \<open>for (let i = count - 1; i >= 0; i--)\<close>.\<close>

function delete_loop :: "state \<Rightarrow> int \<Rightarrow> int \<Rightarrow> 'm \<Rightarrow> state res" where
  "delete_loop s startIndex i meta =
     (if i \<ge> 0 then
        bindR (deleteOne s (startIndex + i) meta) (\<lambda>(s, _, _).
          delete_loop s startIndex (i - 1) meta)
      else ok s)"
  by pat_completeness auto
termination
  by (relation "measure (\<lambda>(s, startIndex, i, meta). nat (i + 1))") auto

definition delete :: "state \<Rightarrow> int \<Rightarrow> int \<Rightarrow> 'm \<Rightarrow> state res" where
  "delete s startIndex count meta = delete_loop s startIndex (count - 1) meta"


text \<open>A replica receiving a list of messages, one after the other.\<close>

fun receive_all :: "state \<Rightarrow> message list \<Rightarrow> 'm \<Rightarrow> state res" where
  "receive_all s [] meta = ok s"
| "receive_all s (m # ms) meta =
     bindR (receivePrimitive s m meta) (\<lambda>(s, _). receive_all s ms meta)"


section \<open>Reference notions used to state the claims\<close>

text \<open>
  \<open>getLeftmostDescendant\<close> and \<open>getRightmostDescendant\<close> of the class (the
  ground truth that \<open>checkSALMs\<close> compares the list managers with).
\<close>

partial_function (option) getLeftmostDescendant :: "state \<Rightarrow> nat \<Rightarrow> nat res" where
  "getLeftmostDescendant s current =
     (case leftChildren (nodes s current) of [] \<Rightarrow> ok current
      | c # cs \<Rightarrow> getLeftmostDescendant s c)"

declare getLeftmostDescendant.simps [code]

partial_function (option) getRightmostDescendant :: "state \<Rightarrow> nat \<Rightarrow> nat res" where
  "getRightmostDescendant s current =
     (if length (rightChildren (nodes s current)) \<noteq> 0
      then getRightmostDescendant s
             (rightChildren (nodes s current) ! (length (rightChildren (nodes s current)) - 1))
      else ok current)"

declare getRightmostDescendant.simps [code]

text \<open>
  The height of a subtree of the balanced index, following the child links for at
  most \<open>k\<close> levels; the height of the empty tree is \<open>-1\<close>. With \<open>k\<close> the number of
  allocated nodes this is the height of any tree without a cycle.
\<close>

fun height_b :: "nat \<Rightarrow> state \<Rightarrow> nat option \<Rightarrow> int" where
  "height_b 0 s p = - 1"
| "height_b (Suc k) s None = - 1"
| "height_b (Suc k) s (Some a) =
     1 + max (height_b k s (bLeftChild (nodes s a))) (height_b k s (bRightChild (nodes s a)))"

text \<open>A replica performing local single-character inserts \<open>(index, char, uid)\<close>.\<close>

fun insert_all :: "state \<Rightarrow> (int \<times> string \<times> string) list \<Rightarrow> 'm \<Rightarrow> state res" where
  "insert_all s [] meta = ok s"
| "insert_all s ((index, char, uid) # xs) meta =
     bindR (insertOne s index char uid meta) (\<lambda>(s, _, _). insert_all s xs meta)"

section \<open>Evaluation on concrete inputs\<close>

text \<open>
  The definitions are evaluated by rewriting, arguments first. The upward walk of
  \<open>getEndNode\<close> is unfolded only from a node that is not on a cycle of two parent
  links; on such a cycle the walk never ends.
\<close>

lemma bindR_weak_cong: "m = m' \<Longrightarrow> bindR m f = bindR m' f"
  by simp

definition on_2cycle :: "salm \<Rightarrow> nat \<Rightarrow> bool" where
  "on_2cycle S a =
     (case bParent_s (snodes S a) of None \<Rightarrow> False
      | Some b \<Rightarrow> bParent_s (snodes S b) = Some a)"

lemma getEndNode_up_2cycle:
  assumes "on_2cycle S a"
  shows "getEndNode_up S a = None"
proof -
  from assms obtain b where ab: "bParent_s (snodes S a) = Some b"
    and ba: "bParent_s (snodes S b) = Some a"
    by (auto simp: on_2cycle_def split: option.splits)
  have "S' = S \<longrightarrow> x \<noteq> a \<and> x \<noteq> b" if h: "getEndNode_up S' x = Some y" for S' x y
  proof (rule getEndNode_up.raw_induct[where P = "\<lambda>S' x y. S' = S \<longrightarrow> x \<noteq> a \<and> x \<noteq> b", OF _ h],
      goal_cases)
    case (1 f s current r)
    note IH = 1(1) and eq = 1(2)
    show ?case
    proof (intro impI)
      assume sS: "s = S"
      show "current \<noteq> a \<and> current \<noteq> b"
      proof (rule ccontr)
        assume "\<not> (current \<noteq> a \<and> current \<noteq> b)"
        then consider "current = a" | "current = b" by blast
        then show False
        proof cases
          case 1
          with eq sS ab have "f S b = Some r" by simp
          from IH[OF this] show False by simp
        next
          case 2
          with eq sS ba have "f S a = Some r" by simp
          from IH[OF this] show False by simp
        qed
      qed
    qed
  qed
  then show ?thesis
    by (cases "getEndNode_up S a") auto
qed

lemma getEndNode_up_unfold:
  "\<not> on_2cycle S a \<Longrightarrow>
   getEndNode_up S a =
     (case bParent_s (snodes S a) of None \<Rightarrow> ok a | Some p \<Rightarrow> getEndNode_up S p)"
  by (subst getEndNode_up.simps) simp

lemmas eval_defs = ok_def err_def empty_salm_def supd_def bIsLeftChild_s_def height_def
  bF_s_def nodeByValue_def createInternal_def create_def updateBHeight_def
  set_parent_opt_s_def rotate_Left_s_def rotate_Right_s_def rotate_RightLeft_s_def
  rotate_LeftRight_s_def relink_s_def rebalance_s.simps on_2cycle_def
  getEndNode_up_2cycle getEndNode_up_unfold getEndNode_down.simps
  getEndNode_def getEnd_def append_heights.simps append_def expose_def nodeWithChildren_def
  joinRightAVL.simps joinLeftAVL.simps join_def erase_parent_def split_path.simps split_def
  new_Node_def init_state_def upd_def children_def bIsLeftChild_def bCount_opt_def
  updateBCount_def set_bParent_opt_def rotate_Left_def rotate_Right_def double_bF_def
  rotate_RightLeft_def rotate_LeftRight_def relink_def rebalance.simps getNeighbor_def
  descend_left.simps descend_right.simps attach_def add_bCount.simps update_SALMs_def
  nodeToIndex_loop.simps nodeToIndex_def receive_insert_def receive_delete_def
  length_t_def indexToNode_loop.simps indexToNode_def nextNode_up.simps nextNode_def
  toString_walk.simps join_values_def toString_def getPosition_def findPosition_def
  insertOne_def deleteOne_def delete_def getLeftmostDescendant.simps
  getRightmostDescendant.simps Let_def


section \<open>The list manager after a split (claim C6)\<close>

text \<open>
  Replica \<open>a\<close> typed three characters (\<open>a1\<close>, \<open>a2\<close>, \<open>a3\<close>, each the right child
  of the one before), replica \<open>b\<close> concurrently typed one character into the empty
  text (\<open>b1\<close>, a right child of the root). A replica receives the four messages.
  Node references: the root is 0, \<open>a1\<close> is 1, \<open>a2\<close> is 2, \<open>a3\<close> is 3, \<open>b1\<close> is 4.
\<close>

definition split_trace :: "message list" where
  "split_trace =
     [InsertMessage ''a1'' [] False ''A'', InsertMessage ''a2'' ''a1'' False ''A'',
      InsertMessage ''a3'' ''a2'' False ''A'', InsertMessage ''b1'' [] False ''B'']"

text \<open>
  C6, at this input: every handler returns, the rightmost descendant of \<open>a1\<close> in the
  interleaving tree is \<open>a3\<close>, and \<open>rightSALM.getEnd(a1)\<close> does not return: the
  split left the root of the list \<open>[a1, a2, a3]\<close> with a parent link to its own
  child, so the upward walk of \<open>getEndNode\<close> runs forever.
\<close>

theorem C6_getEnd_diverges_after_split:
  "\<exists>s. receive_all init_state split_trace () = Some (Inr s) \<and>
       getRightmostDescendant s 1 = Some (Inr 3) \<and>
       getEnd (rightSALM s) 1 = None"
proof -
  have "case receive_all init_state split_trace () of
          Some (Inr s) \<Rightarrow> getRightmostDescendant s 1 = Some (Inr 3) \<and>
                          getEnd (rightSALM s) 1 = None
        | _ \<Rightarrow> False"
    unfolding split_trace_def
    by (simp add: eval_defs cong: bindR_weak_cong let_weak_cong)
  then show ?thesis
    by (auto split: option.splits sum.splits)
qed


section \<open>Delivery order and the list manager (claim C1)\<close>

text \<open>
  Replica \<open>a\<close> types a fourth character \<open>a4\<close> (the right child of \<open>a3\<close>) before
  it hears of \<open>b1\<close>: \<open>a4\<close> and \<open>b1\<close> are concurrent. Both lists below deliver a
  node's insert after its parent's, so both respect causal order.
\<close>

definition order_a4_b1 :: "message list" where
  "order_a4_b1 =
     [InsertMessage ''a1'' [] False ''A'', InsertMessage ''a2'' ''a1'' False ''A'',
      InsertMessage ''a3'' ''a2'' False ''A'', InsertMessage ''a4'' ''a3'' False ''A'',
      InsertMessage ''b1'' [] False ''B'']"

definition order_b1_a4 :: "message list" where
  "order_b1_a4 =
     [InsertMessage ''a1'' [] False ''A'', InsertMessage ''a2'' ''a1'' False ''A'',
      InsertMessage ''a3'' ''a2'' False ''A'', InsertMessage ''b1'' [] False ''B'',
      InsertMessage ''a4'' ''a3'' False ''A'']"

text \<open>
  C1, at this input: the two deliveries hold the same set of messages; the replica
  that receives \<open>a4\<close> before \<open>b1\<close> ends with the text \<open>AAAAB\<close>; the replica that
  receives \<open>b1\<close> before \<open>a4\<close> never returns from the handler of \<open>a4\<close> (the
  append to the list of \<open>a3\<close> walks the parent cycle that the split of \<open>b1\<close>
  left behind), so it never has a text to compare. The two handlers do not commute.
\<close>

theorem C1_concurrent_inserts_do_not_commute:
  "set order_a4_b1 = set order_b1_a4 \<and>
   (\<exists>s. receive_all init_state order_a4_b1 () = Some (Inr s) \<and>
        toString s = Some (Inr ''AAAAB'')) \<and>
   receive_all init_state order_b1_a4 () = None"
proof -
  have 1: "set order_a4_b1 = set order_b1_a4"
    unfolding order_a4_b1_def order_b1_a4_def by auto
  have "case receive_all init_state order_a4_b1 () of
          Some (Inr s) \<Rightarrow> toString s = Some (Inr ''AAAAB'')
        | _ \<Rightarrow> False"
    unfolding order_a4_b1_def
    by (simp add: eval_defs cong: bindR_weak_cong let_weak_cong)
  then have 2: "\<exists>s. receive_all init_state order_a4_b1 () = Some (Inr s) \<and>
        toString s = Some (Inr ''AAAAB'')"
    by (auto split: option.splits sum.splits)
  have 3: "receive_all init_state order_b1_a4 () = None"
    unfolding order_b1_a4_def
    by (simp add: eval_defs cong: bindR_weak_cong let_weak_cong)
  from 1 2 3 show ?thesis by blast
qed

section \<open>The balance factors of the balanced index (claim C3)\<close>

text \<open>
  One replica, starting empty, inserts six characters at the indices 0, 0, 0, 0, 1
  and 4 through \<open>insertOne\<close>. Node references follow the order of insertion: the
  root is 0 and the character with id \<open>a2\<close> is 2.
\<close>

definition six_inserts :: "(int \<times> string \<times> string) list" where
  "six_inserts =
     [(0, ''x'', ''a1''), (0, ''x'', ''a2''), (0, ''x'', ''a3''),
      (0, ''x'', ''a4''), (1, ''x'', ''a5''), (4, ''x'', ''a6'')]"

text \<open>
  C3, at this input: all six inserts return, and afterwards the node \<open>a2\<close> has an
  empty left subtree (height -1) and a right subtree of height 1 in the balanced
  index, so the AVL invariant fails there, and its stored balance factor is 1, not
  the difference 2 of the heights. \<open>rotate_LeftRight\<close> assigns the balance factors
  of \<open>rotate_RightLeft\<close> unmirrored; later inserts then skip a rotation.
\<close>

theorem C3_balance_broken_after_six_inserts:
  "\<exists>s. insert_all init_state six_inserts () = Some (Inr s) \<and>
       height_b (ncount s) s (bLeftChild (nodes s 2)) = - 1 \<and>
       height_b (ncount s) s (bRightChild (nodes s 2)) = 1 \<and>
       bF (nodes s 2) = 1"
proof -
  have "case insert_all init_state six_inserts () of
          Some (Inr s) \<Rightarrow>
            height_b (ncount s) s (bLeftChild (nodes s 2)) = - 1 \<and>
            height_b (ncount s) s (bRightChild (nodes s 2)) = 1 \<and>
            bF (nodes s 2) = 1
        | _ \<Rightarrow> False"
    unfolding six_inserts_def
    by (simp add: eval_defs numeral_eq_Suc cong: bindR_weak_cong let_weak_cong)
  then show ?thesis
    by (auto split: option.splits sum.splits)
qed


section \<open>References stay inside the heaps\<close>

text \<open>
  Every reference the program holds was returned by an allocation. The predicates
  below say so for the heap of a list manager whose values are references to
  character nodes below \<open>n\<close>.
\<close>

definition optlt :: "nat option \<Rightarrow> nat \<Rightarrow> bool" where
  "optlt p k = (case p of None \<Rightarrow> True | Some c \<Rightarrow> c < k)"

definition snode_ok :: "nat \<Rightarrow> nat \<Rightarrow> snode \<Rightarrow> bool" where
  "snode_ok n k nd \<longleftrightarrow>
     value_s nd < n \<and> optlt (bParent_s nd) k \<and> optlt (bLeftChild_s nd) k \<and>
     optlt (bRightChild_s nd) k"

definition salm_closed :: "nat \<Rightarrow> salm \<Rightarrow> bool" where
  "salm_closed n S \<longleftrightarrow>
     (\<forall>a<scount S. snode_ok n (scount S) (snodes S a)) \<and>
     (\<forall>v a. nodeByValue_map S v = Some a \<longrightarrow> a < scount S)"

lemma optlt_simps [simp]: "optlt None k" "optlt (Some c) k \<longleftrightarrow> c < k"
  by (simp_all add: optlt_def)

lemma optlt_mono: "optlt p k \<Longrightarrow> k \<le> k' \<Longrightarrow> optlt p k'"
  by (cases p) auto

lemma snode_ok_mono: "snode_ok n k nd \<Longrightarrow> k \<le> k' \<Longrightarrow> n \<le> n' \<Longrightarrow> snode_ok n' k' nd"
  by (auto simp: snode_ok_def intro: optlt_mono)

lemma supd_simps [simp]:
  "snodes (supd S a f) b = (if b = a then f (snodes S a) else snodes S b)"
  "scount (supd S a f) = scount S"
  "nodeByValue_map (supd S a f) = nodeByValue_map S"
  by (simp_all add: supd_def)

lemma salm_closedD:
  "salm_closed n S \<Longrightarrow> a < scount S \<Longrightarrow> snode_ok n (scount S) (snodes S a)"
  by (simp add: salm_closed_def)

lemma salm_closed_ptrs:
  assumes "salm_closed n S" "a < scount S"
  shows "optlt (bParent_s (snodes S a)) (scount S)"
    and "optlt (bLeftChild_s (snodes S a)) (scount S)"
    and "optlt (bRightChild_s (snodes S a)) (scount S)"
    and "value_s (snodes S a) < n"
  using salm_closedD[OF assms] by (auto simp: snode_ok_def)

lemma salm_closed_ptrs':
  assumes "salm_closed n S" "a < scount S" "scount S = k"
  shows "optlt (bParent_s (snodes S a)) k"
    and "optlt (bLeftChild_s (snodes S a)) k"
    and "optlt (bRightChild_s (snodes S a)) k"
  using salm_closed_ptrs[OF assms(1,2)] assms(3) by auto

lemma salm_closed_supd:
  assumes "salm_closed n S" "a < scount S \<Longrightarrow> snode_ok n (scount S) (f (snodes S a))"
  shows "salm_closed n (supd S a f)"
  using assms by (auto simp: salm_closed_def)

lemma salm_closed_set_parent:
  "salm_closed n S \<Longrightarrow> optlt p (scount S) \<Longrightarrow>
   salm_closed n (supd S a (\<lambda>nd. nd\<lparr> bParent_s := p \<rparr>))"
  by (rule salm_closed_supd) (auto dest!: salm_closedD simp: snode_ok_def)

lemma salm_closed_set_left:
  "salm_closed n S \<Longrightarrow> optlt p (scount S) \<Longrightarrow>
   salm_closed n (supd S a (\<lambda>nd. nd\<lparr> bLeftChild_s := p \<rparr>))"
  by (rule salm_closed_supd) (auto dest!: salm_closedD simp: snode_ok_def)

lemma salm_closed_set_right:
  "salm_closed n S \<Longrightarrow> optlt p (scount S) \<Longrightarrow>
   salm_closed n (supd S a (\<lambda>nd. nd\<lparr> bRightChild_s := p \<rparr>))"
  by (rule salm_closed_supd) (auto dest!: salm_closedD simp: snode_ok_def)

lemma salm_closed_set_height:
  "salm_closed n S \<Longrightarrow> salm_closed n (supd S a (\<lambda>nd. nd\<lparr> bHeight_s := h \<rparr>))"
  by (rule salm_closed_supd) (auto dest!: salm_closedD simp: snode_ok_def)

lemma salm_closed_set_height_fun:
  "salm_closed n S \<Longrightarrow> salm_closed n (supd S a (\<lambda>nd. nd\<lparr> bHeight_s := h nd \<rparr>))"
  by (rule salm_closed_supd) (auto dest!: salm_closedD simp: snode_ok_def)

lemma updateBHeight_simps [simp]:
  "scount (updateBHeight S a) = scount S"
  "nodeByValue_map (updateBHeight S a) = nodeByValue_map S"
  "bParent_s (snodes (updateBHeight S a) b) = bParent_s (snodes S b)"
  "bLeftChild_s (snodes (updateBHeight S a) b) = bLeftChild_s (snodes S b)"
  "bRightChild_s (snodes (updateBHeight S a) b) = bRightChild_s (snodes S b)"
  "value_s (snodes (updateBHeight S a) b) = value_s (snodes S b)"
  by (simp_all add: updateBHeight_def Let_def)

lemma salm_closed_updateBHeight:
  "salm_closed n S \<Longrightarrow> salm_closed n (updateBHeight S a)"
  by (simp add: salm_closed_def snode_ok_def)

lemma set_parent_opt_s_simps [simp]:
  "scount (set_parent_opt_s S t X) = scount S"
  "nodeByValue_map (set_parent_opt_s S t X) = nodeByValue_map S"
  by (simp_all add: set_parent_opt_s_def split: option.splits)

lemma salm_closed_set_parent_opt:
  "salm_closed n S \<Longrightarrow> X < scount S \<Longrightarrow> salm_closed n (set_parent_opt_s S t X)"
  by (auto simp: set_parent_opt_s_def intro: salm_closed_set_parent split: option.splits)

lemmas salm_closed_intros =
  salm_closed_set_parent salm_closed_set_left salm_closed_set_right salm_closed_set_height
  salm_closed_set_height_fun salm_closed_updateBHeight salm_closed_set_parent_opt

lemma rotate_Left_s_closed:
  assumes "rotate_Left_s S X = Some (Inr (S', Z))" "salm_closed n S" "X < scount S"
  shows "salm_closed n S' \<and> scount S' = scount S \<and> Z < scount S'"
proof -
  from assms(1) obtain Z0 where Z0: "bRightChild_s (snodes S X) = Some Z0"
    by (auto simp: rotate_Left_s_def err_def split: option.splits)
  with salm_closed_ptrs(3)[OF assms(2,3)] have Zlt: "Z0 < scount S" by simp
  from salm_closed_ptrs(2)[OF assms(2) Zlt]
  have t: "optlt (bLeftChild_s (snodes S Z0)) (scount S)" .
  show ?thesis
    using assms Z0 Zlt t
    by (auto simp: rotate_Left_s_def ok_def Let_def intro!: salm_closed_intros)
qed


lemma rotate_Right_s_closed:
  assumes "rotate_Right_s S X = Some (Inr (S', Z))" "salm_closed n S" "X < scount S"
  shows "salm_closed n S' \<and> scount S' = scount S \<and> Z < scount S'"
proof -
  from assms(1) obtain Z0 where Z0: "bLeftChild_s (snodes S X) = Some Z0"
    by (auto simp: rotate_Right_s_def err_def split: option.splits)
  with salm_closed_ptrs(2)[OF assms(2,3)] have Zlt: "Z0 < scount S" by simp
  from salm_closed_ptrs(3)[OF assms(2) Zlt]
  have t: "optlt (bRightChild_s (snodes S Z0)) (scount S)" .
  show ?thesis
    using assms Z0 Zlt t
    by (auto simp: rotate_Right_s_def ok_def Let_def intro!: salm_closed_intros)
qed

lemma rotate_RightLeft_s_closed:
  assumes "rotate_RightLeft_s S X Z = Some (Inr (S', Y))" "salm_closed n S"
    "X < scount S" "Z < scount S"
  shows "salm_closed n S' \<and> scount S' = scount S \<and> Y < scount S'"
proof -
  from assms(1) obtain Y0 where Y0: "bLeftChild_s (snodes S Z) = Some Y0"
    by (auto simp: rotate_RightLeft_s_def err_def split: option.splits)
  with salm_closed_ptrs(2,3)[OF assms(2,4)] have Ylt: "Y0 < scount S" by simp
  show ?thesis
    using assms Y0 Ylt
    by (auto simp: rotate_RightLeft_s_def ok_def Let_def simp del: supd_simps(1)
        intro!: salm_closed_intros salm_closed_ptrs')
qed

lemma rotate_LeftRight_s_closed:
  assumes "rotate_LeftRight_s S X Z = Some (Inr (S', Y))" "salm_closed n S"
    "X < scount S" "Z < scount S"
  shows "salm_closed n S' \<and> scount S' = scount S \<and> Y < scount S'"
proof -
  from assms(1) obtain Y0 where Y0: "bRightChild_s (snodes S Z) = Some Y0"
    by (auto simp: rotate_LeftRight_s_def err_def split: option.splits)
  with salm_closed_ptrs(2,3)[OF assms(2,4)] have Ylt: "Y0 < scount S" by simp
  show ?thesis
    using assms Y0 Ylt
    by (auto simp: rotate_LeftRight_s_def ok_def Let_def simp del: supd_simps(1)
        intro!: salm_closed_intros salm_closed_ptrs')
qed

lemma relink_s_closed:
  assumes "salm_closed n S" "N < scount S" "optlt G (scount S)"
  shows "salm_closed n (relink_s S X G N) \<and> scount (relink_s S X G N) = scount S"
  using assms
  by (auto simp: relink_s_def Let_def intro!: salm_closed_intros split: option.splits)

lemma rebalance_s_closed:
  assumes "rebalance_s S Z = Some (Inr S')" "salm_closed n S" "Z < scount S"
  shows "salm_closed n S' \<and> scount S' = scount S"
proof -
  have "salm_closed n S \<and> Z < scount S \<longrightarrow>
        (\<forall>S'. r = Inr S' \<longrightarrow> salm_closed n S' \<and> scount S' = scount S)"
    if h: "rebalance_s S Z = Some r" for S Z r
  proof (rule rebalance_s.raw_induct[where P = "\<lambda>S Z r. salm_closed n S \<and> Z < scount S \<longrightarrow>
        (\<forall>S'. r = Inr S' \<longrightarrow> salm_closed n S' \<and> scount S' = scount S)", OF _ h], goal_cases)
    case (1 f S Z r)
    note IH = 1(1) and eq = 1(2)
    show ?case
    proof (intro impI allI)
      fix S' assume pre: "salm_closed n S \<and> Z < scount S" and r: "r = Inr S'"
      show "salm_closed n S' \<and> scount S' = scount S"
      proof (cases "bParent_s (snodes S Z)")
        case None
        with eq r pre show ?thesis by (simp add: ok_def)
      next
        case (Some X)
        with pre salm_closed_ptrs(1)[of n S Z] have Xlt: "X < scount S" by simp
        from pre Xlt salm_closed_ptrs(1)[of n S X]
        have G: "optlt (bParent_s (snodes S X)) (scount S)" by simp
        have rot: "salm_closed n (relink_s S1 X (bParent_s (snodes S X)) N) \<and>
                   scount (relink_s S1 X (bParent_s (snodes S X)) N) = scount S"
          if "salm_closed n S1 \<and> scount S1 = scount S \<and> N < scount S1" for S1 N
          using that G relink_s_closed[of n S1 N "bParent_s (snodes S X)" X] by simp
        from eq r Some pre Xlt show ?thesis
          by (auto simp: ok_def Let_def bindR_def
              split: if_splits option.splits sum.splits prod.splits
              dest!: rotate_Left_s_closed[where n = n] rotate_Right_s_closed[where n = n]
                rotate_RightLeft_s_closed[where n = n] rotate_LeftRight_s_closed[where n = n]
                IH
              intro: rot[THEN conjunct1] rot[THEN conjunct2])
      qed
    qed
  qed
  with assms show ?thesis by blast
qed


lemma getEndNode_up_closed:
  assumes "getEndNode_up S a = Some (Inr r)" "salm_closed n S" "a < scount S"
  shows "r < scount S"
proof -
  have "salm_closed n S \<and> a < scount S \<longrightarrow> (\<forall>x. r = Inr x \<longrightarrow> x < scount S)"
    if h: "getEndNode_up S a = Some r" for S a r
  proof (rule getEndNode_up.raw_induct[where P = "\<lambda>S a r. salm_closed n S \<and> a < scount S \<longrightarrow>
        (\<forall>x. r = Inr x \<longrightarrow> x < scount S)", OF _ h], goal_cases)
    case (1 f S a r)
    then show ?case
      using salm_closed_ptrs(1)[of n S a]
      by (auto simp: ok_def split: option.splits)
  qed
  with assms show ?thesis by blast
qed

lemma getEndNode_down_closed:
  assumes "getEndNode_down S a = Some (Inr r)" "salm_closed n S" "a < scount S"
  shows "r < scount S"
proof -
  have "salm_closed n S \<and> a < scount S \<longrightarrow> (\<forall>x. r = Inr x \<longrightarrow> x < scount S)"
    if h: "getEndNode_down S a = Some r" for S a r
  proof (rule getEndNode_down.raw_induct[where P = "\<lambda>S a r. salm_closed n S \<and> a < scount S \<longrightarrow>
        (\<forall>x. r = Inr x \<longrightarrow> x < scount S)", OF _ h], goal_cases)
    case (1 f S a r)
    then show ?case
      using salm_closed_ptrs(3)[of n S a]
      by (auto simp: ok_def split: option.splits)
  qed
  with assms show ?thesis by blast
qed

lemma bindR_eq_Inr:
  "bindR m f = Some (Inr y) \<longleftrightarrow> (\<exists>x. m = Some (Inr x) \<and> f x = Some (Inr y))"
  by (auto simp: bindR_def split: option.splits sum.splits)

lemma getEndNode_closed:
  assumes "getEndNode S v = Some (Inr r)" "salm_closed n S"
  shows "r < scount S"
  using assms
  by (auto simp: getEndNode_def nodeByValue_def bindR_eq_Inr ok_def err_def salm_closed_def
      split: option.splits
      dest!: getEndNode_up_closed[where n = n] getEndNode_down_closed[where n = n])

lemma getEnd_closed:
  assumes "getEnd S v = Some (Inr r)" "salm_closed n S"
  shows "r < n"
  using assms
  by (auto simp: getEnd_def bindR_eq_Inr ok_def
      dest!: getEndNode_closed[where n = n] dest: salm_closed_ptrs(4))

lemma append_heights_closed:
  assumes "append_heights S c h = Some (Inr S')" "salm_closed n S"
  shows "salm_closed n S' \<and> scount S' = scount S \<and> nodeByValue_map S' = nodeByValue_map S"
proof -
  have "salm_closed n S \<longrightarrow> (\<forall>S'. r = Inr S' \<longrightarrow>
          salm_closed n S' \<and> scount S' = scount S \<and> nodeByValue_map S' = nodeByValue_map S)"
    if h: "append_heights S c h = Some r" for S c h r
  proof (rule append_heights.raw_induct[where P = "\<lambda>S c h r. salm_closed n S \<longrightarrow>
      (\<forall>S'. r = Inr S' \<longrightarrow>
          salm_closed n S' \<and> scount S' = scount S \<and> nodeByValue_map S' = nodeByValue_map S)",
        OF _ h], goal_cases)
    case (1 f S c h r)
    note IH = 1(1) and eq = 1(2)
    show ?case
    proof (cases c)
      case None
      with eq show ?thesis by (auto simp: ok_def)
    next
      case (Some a)
      let ?S1 = "supd S a (\<lambda>n. n\<lparr> bHeight_s := max (bHeight_s n) h \<rparr>)"
      from eq Some have "f ?S1 (bParent_s (snodes S a)) (h + 1) = Some r" by simp
      from IH[OF this] show ?thesis
        by (auto intro: salm_closed_set_height_fun)
    qed
  qed
  with assms show ?thesis by blast
qed

lemma createInternal_closed:
  assumes "createInternal S v = (S', a)" "salm_closed n S" "v < n"
  shows "salm_closed n S' \<and> scount S' = Suc (scount S) \<and> a = scount S"
proof -
  have m: "optlt p (scount S) \<Longrightarrow> optlt p (Suc (scount S))" for p
    by (rule optlt_mono) auto
  show ?thesis
    using assms
    by (auto simp: createInternal_def Let_def salm_closed_def snode_ok_def less_Suc_eq
        intro!: m split: if_splits)
qed

lemma create_closed:
  "salm_closed n S \<Longrightarrow> v < n \<Longrightarrow> salm_closed n (create S v)"
  using createInternal_closed[of S v "fst (createInternal S v)" "snd (createInternal S v)" n]
  by (simp add: create_def)

lemma nodeByValue_closed:
  "nodeByValue S v = Some (Inr a) \<Longrightarrow> salm_closed n S \<Longrightarrow> a < scount S"
  by (auto simp: nodeByValue_def ok_def err_def salm_closed_def split: option.splits)

lemma append_closed:
  assumes "append S e v = Some (Inr S')" "salm_closed n S" "v < n"
  shows "salm_closed n S'"
proof -
  obtain S1 a where c: "createInternal S v = (S1, a)" by (cases "createInternal S v")
  from createInternal_closed[OF c assms(2,3)]
  have c1: "salm_closed n S1" "scount S1 = Suc (scount S)" "a = scount S" by auto
  from assms(1) c obtain p S3 where
    p: "getEndNode S1 e = Some (Inr p)" and
    h: "append_heights (supd (supd S1 p (\<lambda>n. n\<lparr>bRightChild_s := Some a\<rparr>))
            a (\<lambda>n. n\<lparr>bParent_s := Some p\<rparr>)) (Some p) 1 = Some (Inr S3)" and
    r: "rebalance_s S3 a = Some (Inr S')"
    by (auto simp: append_def Let_def bindR_eq_Inr)
  from getEndNode_closed[OF p c1(1)] have plt: "p < scount S1" .
  have "salm_closed n (supd (supd S1 p (\<lambda>n. n\<lparr>bRightChild_s := Some a\<rparr>))
            a (\<lambda>n. n\<lparr>bParent_s := Some p\<rparr>))"
    using c1 plt by (auto intro!: salm_closed_intros)
  from append_heights_closed[OF h this] c1
  have "salm_closed n S3" "a < scount S3" by auto
  from rebalance_s_closed[OF r this] show ?thesis by simp
qed

lemma nodeWithChildren_closed:
  assumes "nodeWithChildren S l k r = (S', a)" "salm_closed n S" "k < n"
    "optlt l (scount S)" "optlt r (scount S)"
  shows "salm_closed n S' \<and> scount S' = Suc (scount S) \<and> a = scount S"
proof -
  obtain S1 a1 where c: "createInternal S k = (S1, a1)" by (cases "createInternal S k")
  from createInternal_closed[OF c assms(2,3)]
  have c1: "salm_closed n S1" "scount S1 = Suc (scount S)" "a1 = scount S" by auto
  have "optlt l (scount S1)" "optlt r (scount S1)"
    using assms(4,5) c1(2) by (auto intro: optlt_mono)
  then show ?thesis
    using assms(1) c c1
    by (auto simp: nodeWithChildren_def Let_def intro!: salm_closed_intros)
qed


lemma joinRightAVL_closed:
  assumes "joinRightAVL S TL k TR = Some (Inr (S', a))" "salm_closed n S" "TL < scount S" "k < n"
    "optlt TR (scount S)"
  shows "salm_closed n S' \<and> scount S \<le> scount S' \<and> a < scount S'"
proof -
  have "salm_closed n S \<and> TL < scount S \<and> k < n \<and> optlt TR (scount S) \<longrightarrow>
        (\<forall>S' a. r = Inr (S', a) \<longrightarrow> salm_closed n S' \<and> scount S \<le> scount S' \<and> a < scount S')"
    if h: "joinRightAVL S TL k TR = Some r" for S TL k TR r
  proof (rule joinRightAVL.raw_induct[where P = "\<lambda>S TL k TR r.
        salm_closed n S \<and> TL < scount S \<and> k < n \<and> optlt TR (scount S) \<longrightarrow>
        (\<forall>S' a. r = Inr (S', a) \<longrightarrow> salm_closed n S' \<and> scount S \<le> scount S' \<and> a < scount S')",
        OF _ h], goal_cases)
    case (1 f S TL k TR r)
    note IH = 1(1) and eq = 1(2)
    show ?case
    proof (intro impI allI)
      fix S' a
      assume pre: "salm_closed n S \<and> TL < scount S \<and> k < n \<and> optlt TR (scount S)" and r: "r = Inr (S', a)"
      obtain x kp y where ex: "expose S TL = (x, kp, y)" by (cases "expose S TL")
      from pre ex have xy: "optlt x (scount S)" "optlt y (scount S)" "kp < n"
        using salm_closed_ptrs[of n S TL] by (auto simp: expose_def)
      show "salm_closed n S' \<and> scount S \<le> scount S' \<and> a < scount S'"
      proof (cases "height S y \<le> height S TR + 1")
        case True
        obtain S1 T1 where n1: "nodeWithChildren S y k TR = (S1, T1)"
          by (cases "nodeWithChildren S y k TR")
        from nodeWithChildren_closed[OF n1] pre xy
        have c1: "salm_closed n S1" "scount S1 = Suc (scount S)" "T1 = scount S" by auto
        have o1: "optlt x (scount S1)" using xy c1(2) by (auto intro: optlt_mono)
        show ?thesis
        proof (cases "height S1 (Some T1) \<le> height S1 x + 1")
          case t2: True
          obtain S2 T2 where n2: "nodeWithChildren S1 x kp (Some T1) = (S2, T2)"
            by (cases "nodeWithChildren S1 x kp (Some T1)")
          from nodeWithChildren_closed[OF n2 c1(1) xy(3)] o1 c1
          have "salm_closed n S2" "scount S2 = Suc (scount S1)" "T2 = scount S1" by auto
          moreover from eq r ex True n1 t2 n2 have "S' = S2" "a = T2"
            by (auto simp: Let_def ok_def)
          ultimately show ?thesis using c1 by auto
        next
          case f2: False
          from eq r ex True n1 f2 obtain S2 t where
            r1: "rotate_Right_s S1 T1 = Some (Inr (S2, t))" and
            e3: "(let (s, n) = nodeWithChildren S2 x kp (Some t) in rotate_Left_s s n) = Some (Inr (S', a))"
            by (auto simp: Let_def bindR_eq_Inr)
          obtain S3 nn where n3: "nodeWithChildren S2 x kp (Some t) = (S3, nn)"
            by (cases "nodeWithChildren S2 x kp (Some t)")
          with e3 have r2: "rotate_Left_s S3 nn = Some (Inr (S', a))" by simp
          from rotate_Right_s_closed[OF r1 c1(1)] c1
          have c2: "salm_closed n S2" "scount S2 = scount S1" "t < scount S2" by auto
          from nodeWithChildren_closed[OF n3 c2(1) xy(3)] o1 c2
          have c3: "salm_closed n S3" "scount S3 = Suc (scount S2)" "nn = scount S2" by auto
          from rotate_Left_s_closed[OF r2 c3(1)] c3
          have "salm_closed n S'" "scount S' = scount S3" "a < scount S'" by auto
          then show ?thesis using c1 c2 c3 by auto
        qed
      next
        case False
        from eq r ex False obtain c' S1 T1 where
          c': "y = Some c'" and
          rec: "f S c' k TR = Some (Inr (S1, T1))" and
          rest: "(let (s, Tpp) = nodeWithChildren S1 x kp (Some T1) in
                  if height s (Some T1) \<le> height s x + 1 then ok (s, Tpp)
                  else rotate_Left_s s Tpp) = Some (Inr (S', a))"
          by (auto simp: Let_def err_def bindR_eq_Inr split: option.splits)
        from c' xy have "c' < scount S" by simp
        with IH[OF rec] pre
        have c1: "salm_closed n S1" "scount S \<le> scount S1" "T1 < scount S1" by auto
        have o1: "optlt x (scount S1)" using xy c1(2) by (auto intro: optlt_mono)
        obtain S2 T2 where n2: "nodeWithChildren S1 x kp (Some T1) = (S2, T2)"
          by (cases "nodeWithChildren S1 x kp (Some T1)")
        from nodeWithChildren_closed[OF n2 c1(1) xy(3)] o1 c1
        have c2: "salm_closed n S2" "scount S2 = Suc (scount S1)" "T2 = scount S1" by auto
        show ?thesis
        proof (cases "height S2 (Some T1) \<le> height S2 x + 1")
          case True
          with rest n2 have "S' = S2" "a = T2" by (auto simp: ok_def)
          then show ?thesis using c1 c2 by auto
        next
          case False
          with rest n2 have "rotate_Left_s S2 T2 = Some (Inr (S', a))" by auto
          from rotate_Left_s_closed[OF this c2(1)] c2
          have "salm_closed n S'" "scount S' = scount S2" "a < scount S'" by auto
          then show ?thesis using c1 c2 by auto
        qed
      qed
    qed
  qed
  with assms show ?thesis by blast
qed

lemma joinLeftAVL_closed:
  assumes "joinLeftAVL S TL k TR = Some (Inr (S', a))" "salm_closed n S" "TR < scount S" "k < n"
    "optlt TL (scount S)"
  shows "salm_closed n S' \<and> scount S \<le> scount S' \<and> a < scount S'"
proof -
  have "salm_closed n S \<and> TR < scount S \<and> k < n \<and> optlt TL (scount S) \<longrightarrow>
        (\<forall>S' a. r = Inr (S', a) \<longrightarrow> salm_closed n S' \<and> scount S \<le> scount S' \<and> a < scount S')"
    if h: "joinLeftAVL S TL k TR = Some r" for S TL k TR r
  proof (rule joinLeftAVL.raw_induct[where P = "\<lambda>S TL k TR r.
        salm_closed n S \<and> TR < scount S \<and> k < n \<and> optlt TL (scount S) \<longrightarrow>
        (\<forall>S' a. r = Inr (S', a) \<longrightarrow> salm_closed n S' \<and> scount S \<le> scount S' \<and> a < scount S')",
        OF _ h], goal_cases)
    case (1 f S TL k TR r)
    note IH = 1(1) and eq = 1(2)
    show ?case
    proof (intro impI allI)
      fix S' a
      assume pre: "salm_closed n S \<and> TR < scount S \<and> k < n \<and> optlt TL (scount S)" and r: "r = Inr (S', a)"
      obtain x kp y where ex: "expose S TR = (x, kp, y)" by (cases "expose S TR")
      from pre ex have xy: "optlt x (scount S)" "optlt y (scount S)" "kp < n"
        using salm_closed_ptrs[of n S TR] by (auto simp: expose_def)
      show "salm_closed n S' \<and> scount S \<le> scount S' \<and> a < scount S'"
      proof (cases "height S x \<le> height S TL + 1")
        case True
        obtain S1 T1 where n1: "nodeWithChildren S TL k x = (S1, T1)"
          by (cases "nodeWithChildren S TL k x")
        from nodeWithChildren_closed[OF n1] pre xy
        have c1: "salm_closed n S1" "scount S1 = Suc (scount S)" "T1 = scount S" by auto
        have o1: "optlt y (scount S1)" using xy c1(2) by (auto intro: optlt_mono)
        show ?thesis
        proof (cases "height S1 (Some T1) \<le> height S1 y + 1")
          case t2: True
          obtain S2 T2 where n2: "nodeWithChildren S1 (Some T1) kp y = (S2, T2)"
            by (cases "nodeWithChildren S1 (Some T1) kp y")
          from nodeWithChildren_closed[OF n2 c1(1) xy(3)] o1 c1
          have "salm_closed n S2" "scount S2 = Suc (scount S1)" "T2 = scount S1" by auto
          moreover from eq r ex True n1 t2 n2 have "S' = S2" "a = T2"
            by (auto simp: Let_def ok_def)
          ultimately show ?thesis using c1 by auto
        next
          case f2: False
          from eq r ex True n1 f2 obtain S2 t where
            r1: "rotate_Left_s S1 T1 = Some (Inr (S2, t))" and
            e3: "(let (s, n) = nodeWithChildren S2 (Some t) kp y in rotate_Right_s s n) = Some (Inr (S', a))"
            by (auto simp: Let_def bindR_eq_Inr)
          obtain S3 nn where n3: "nodeWithChildren S2 (Some t) kp y = (S3, nn)"
            by (cases "nodeWithChildren S2 (Some t) kp y")
          with e3 have r2: "rotate_Right_s S3 nn = Some (Inr (S', a))" by simp
          from rotate_Left_s_closed[OF r1 c1(1)] c1
          have c2: "salm_closed n S2" "scount S2 = scount S1" "t < scount S2" by auto
          from nodeWithChildren_closed[OF n3 c2(1) xy(3)] o1 c2
          have c3: "salm_closed n S3" "scount S3 = Suc (scount S2)" "nn = scount S2" by auto
          from rotate_Right_s_closed[OF r2 c3(1)] c3
          have "salm_closed n S'" "scount S' = scount S3" "a < scount S'" by auto
          then show ?thesis using c1 c2 c3 by auto
        qed
      next
        case False
        from eq r ex False obtain c' S1 T1 where
          c': "x = Some c'" and
          rec: "f S TL k c' = Some (Inr (S1, T1))" and
          rest: "(let (s, Tpp) = nodeWithChildren S1 (Some T1) kp y in
                  if height s (Some T1) \<le> height s y + 1 then ok (s, Tpp)
                  else rotate_Right_s s Tpp) = Some (Inr (S', a))"
          by (auto simp: Let_def err_def bindR_eq_Inr split: option.splits)
        from c' xy have "c' < scount S" by simp
        with IH[OF rec] pre
        have c1: "salm_closed n S1" "scount S \<le> scount S1" "T1 < scount S1" by auto
        have o1: "optlt y (scount S1)" using xy c1(2) by (auto intro: optlt_mono)
        obtain S2 T2 where n2: "nodeWithChildren S1 (Some T1) kp y = (S2, T2)"
          by (cases "nodeWithChildren S1 (Some T1) kp y")
        from nodeWithChildren_closed[OF n2 c1(1) xy(3)] o1 c1
        have c2: "salm_closed n S2" "scount S2 = Suc (scount S1)" "T2 = scount S1" by auto
        show ?thesis
        proof (cases "height S2 (Some T1) \<le> height S2 y + 1")
          case True
          with rest n2 have "S' = S2" "a = T2" by (auto simp: ok_def)
          then show ?thesis using c1 c2 by auto
        next
          case False
          with rest n2 have "rotate_Right_s S2 T2 = Some (Inr (S', a))" by auto
          from rotate_Right_s_closed[OF this c2(1)] c2
          have "salm_closed n S'" "scount S' = scount S2" "a < scount S'" by auto
          then show ?thesis using c1 c2 by auto
        qed
      qed
    qed
  qed
  with assms show ?thesis by blast
qed


lemma join_closed:
  assumes "join S TL k TR = Some (Inr (S', a))" "salm_closed n S" "k < n"
    "optlt TL (scount S)" "optlt TR (scount S)"
  shows "salm_closed n S' \<and> scount S \<le> scount S' \<and> a < scount S'"
proof -
  consider (r) TL' where "TL = Some TL'" "joinRightAVL S TL' k TR = Some (Inr (S', a))"
    | (l) TR' where "TR = Some TR'" "joinLeftAVL S TL k TR' = Some (Inr (S', a))"
    | (n) "nodeWithChildren S TL k TR = (S', a)"
    using assms(1)
    by (auto simp: join_def ok_def err_def split: if_splits option.splits)
  then show ?thesis
  proof cases
    case r
    with joinRightAVL_closed[OF r(2) assms(2) _ assms(3,5)] assms(4) show ?thesis by simp
  next
    case l
    with joinLeftAVL_closed[OF l(2) assms(2) _ assms(3,4)] assms(5) show ?thesis by simp
  next
    case n
    from nodeWithChildren_closed[OF n assms(2,3,4,5)] show ?thesis by simp
  qed
qed

lemma erase_parent_closed:
  "salm_closed n S \<Longrightarrow> salm_closed n (erase_parent S L) \<and> scount (erase_parent S L) = scount S"
  by (auto simp: erase_parent_def Let_def intro!: salm_closed_intros split: option.splits)

lemma splitInternal_closed:
  assumes "splitInternal S T path = Some (Inr (S', L, R))" "salm_closed n S" "T < scount S"
  shows "salm_closed n S' \<and> scount S \<le> scount S' \<and> optlt L (scount S') \<and> optlt R (scount S')"
  using assms
proof (induction path arbitrary: S T S' L R)
  case Nil
  from Nil.prems(2,3) have "optlt (bLeftChild_s (snodes S T)) (scount S)"
    "optlt (bRightChild_s (snodes S T)) (scount S)"
    by (auto dest: salm_closed_ptrs)
  with Nil show ?case
    using erase_parent_closed[of n S "bLeftChild_s (snodes S T)"]
      erase_parent_closed[of n "erase_parent S (bLeftChild_s (snodes S T))" "bRightChild_s (snodes S T)"]
    by (auto simp: expose_def Let_def ok_def)
next
  case (Cons nx path)
  from Cons.prems(2,3) have ch: "optlt (bLeftChild_s (snodes S T)) (scount S)"
    "optlt (bRightChild_s (snodes S T)) (scount S)" "value_s (snodes S T) < n"
    by (auto dest: salm_closed_ptrs)
  let ?m = "value_s (snodes S T)"
  consider (left) S1 Lp Rp j where "Some nx = bLeftChild_s (snodes S T)"
      "splitInternal S nx path = Some (Inr (S1, Lp, Rp))"
      "join S1 Rp ?m (bRightChild_s (snodes S T)) = Some (Inr (S', j))" "L = Lp" "R = Some j"
    | (right) S1 Lp Rp j where "Some nx = bRightChild_s (snodes S T)"
      "splitInternal S nx path = Some (Inr (S1, Lp, Rp))"
      "join S1 (bLeftChild_s (snodes S T)) ?m Lp = Some (Inr (S', j))" "L = Some j" "R = Rp"
    using Cons.prems(1)
    by (auto simp: expose_def Let_def ok_def err_def bindR_eq_Inr split: if_splits)
  then show ?case
  proof cases
    case left
    from left(1) ch have "nx < scount S" by (cases "bLeftChild_s (snodes S T)") auto
    from Cons.IH[OF left(2) Cons.prems(2) this]
    have c1: "salm_closed n S1" "scount S \<le> scount S1" "optlt Lp (scount S1)" "optlt Rp (scount S1)"
      by auto
    from join_closed[OF left(3) c1(1) ch(3) c1(4)] ch(2) c1(2)
    have "salm_closed n S'" "scount S1 \<le> scount S'" "j < scount S'"
      by (auto intro: optlt_mono)
    with c1 left show ?thesis by (auto intro: optlt_mono)
  next
    case right
    from right(1) ch have "nx < scount S" by (cases "bRightChild_s (snodes S T)") auto
    from Cons.IH[OF right(2) Cons.prems(2) this]
    have c1: "salm_closed n S1" "scount S \<le> scount S1" "optlt Lp (scount S1)" "optlt Rp (scount S1)"
      by auto
    from join_closed[OF right(3) c1(1) ch(3) _ c1(3)] ch(1) c1(2)
    have "salm_closed n S'" "scount S1 \<le> scount S'" "j < scount S'"
      by (auto intro: optlt_mono)
    with c1 right show ?thesis by (auto intro: optlt_mono)
  qed
qed

lemma split_path_closed:
  assumes "split_path S a path = Some (Inr (root, path'))" "salm_closed n S" "a < scount S"
  shows "root < scount S"
proof -
  have "salm_closed n S \<and> a < scount S \<longrightarrow> (\<forall>x p. r = Inr (x, p) \<longrightarrow> x < scount S)"
    if h: "split_path S a path = Some r" for S a path r
  proof (rule split_path.raw_induct[where P = "\<lambda>S a path r. salm_closed n S \<and> a < scount S \<longrightarrow>
        (\<forall>x p. r = Inr (x, p) \<longrightarrow> x < scount S)", OF _ h], goal_cases)
    case (1 f S a path r)
    then show ?case
      using salm_closed_ptrs(1)[of n S a]
      by (auto simp: ok_def split: option.splits)
  qed
  with assms show ?thesis by blast
qed

lemma split_closed:
  assumes "split S v = Some (Inr S')" "salm_closed n S" "v < n"
  shows "salm_closed n S'"
proof -
  from assms(1) obtain node root path S1 left right where
    nb: "nodeByValue S v = Some (Inr node)" and
    sp: "split_path S node [] = Some (Inr (root, path))" and
    si: "splitInternal S root path = Some (Inr (S1, left, right))" and
    fin: "(case left of Some l \<Rightarrow> append S1 (value_s (snodes S1 l)) v | None \<Rightarrow> ok (create S1 v))
            = Some (Inr S')"
    by (auto simp: split_def bindR_eq_Inr)
  from nodeByValue_closed[OF nb assms(2)] have "node < scount S" .
  from split_path_closed[OF sp assms(2) this] have "root < scount S" .
  from splitInternal_closed[OF si assms(2) this] have c1: "salm_closed n S1" by simp
  show ?thesis
  proof (cases left)
    case None
    with fin have "S' = create S1 v" by (simp add: ok_def)
    with create_closed[OF c1 assms(3)] show ?thesis by simp
  next
    case (Some l)
    with fin have "append S1 (value_s (snodes S1 l)) v = Some (Inr S')" by simp
    from append_closed[OF this c1 assms(3)] show ?thesis .
  qed
qed

lemma salm_closed_mono: "salm_closed n S \<Longrightarrow> n \<le> n' \<Longrightarrow> salm_closed n' S"
  by (auto simp: salm_closed_def intro: snode_ok_mono)

lemma salm_closed_init: "salm_closed 1 (create empty_salm 0)"
  by (auto simp: salm_closed_def create_def createInternal_def empty_salm_def Let_def
      snode_ok_def)


section \<open>The shape of the balanced index\<close>

text \<open>
  The balanced index as a graph over the references below \<open>K\<close>: the three link
  fields, read as functions from references. The links stay below \<open>K\<close>, a child's
  parent link points back, the two children of a node differ, a parent link is
  matched by a child link, only the root has no parent, and a rank that decreases
  along the parent links excludes cycles.
\<close>

definition bl :: "state \<Rightarrow> nat \<Rightarrow> nat option" where
  "bl s a = bLeftChild (nodes s a)"

definition br :: "state \<Rightarrow> nat \<Rightarrow> nat option" where
  "br s a = bRightChild (nodes s a)"

definition bp :: "state \<Rightarrow> nat \<Rightarrow> nat option" where
  "bp s a = bParent (nodes s a)"

definition bc :: "state \<Rightarrow> nat \<Rightarrow> int" where
  "bc s a = bCount (nodes s a)"

definition pr :: "state \<Rightarrow> nat \<Rightarrow> bool" where
  "pr s a = isPresent (nodes s a)"

definition ranked :: "nat \<Rightarrow> (nat \<Rightarrow> nat option) \<Rightarrow> (nat \<Rightarrow> nat) \<Rightarrow> bool" where
  "ranked K P rank \<longleftrightarrow> (\<forall>a<K. \<forall>p. P a = Some p \<longrightarrow> rank p < rank a)"

definition bgraph ::
  "nat \<Rightarrow> nat \<Rightarrow> (nat \<Rightarrow> nat option) \<Rightarrow> (nat \<Rightarrow> nat option) \<Rightarrow> (nat \<Rightarrow> nat option) \<Rightarrow> bool" where
  "bgraph K root L R P \<longleftrightarrow>
     root < K \<and> P root = None \<and>
     (\<forall>a<K. optlt (P a) K \<and> optlt (L a) K \<and> optlt (R a) K) \<and>
     (\<forall>a<K. \<forall>c. L a = Some c \<longrightarrow> P c = Some a \<and> R a \<noteq> Some c) \<and>
     (\<forall>a<K. \<forall>c. R a = Some c \<longrightarrow> P c = Some a) \<and>
     (\<forall>a<K. \<forall>p. P a = Some p \<longrightarrow> L p = Some a \<or> R p = Some a) \<and>
     (\<forall>a<K. P a = None \<longrightarrow> a = root) \<and>
     (\<exists>rank. ranked K P rank)"

definition copt :: "(nat \<Rightarrow> int) \<Rightarrow> nat option \<Rightarrow> int" where
  "copt C p = (case p of None \<Rightarrow> 0 | Some a \<Rightarrow> C a)"

definition count_at ::
  "(nat \<Rightarrow> nat option) \<Rightarrow> (nat \<Rightarrow> nat option) \<Rightarrow> (nat \<Rightarrow> int) \<Rightarrow> (nat \<Rightarrow> bool) \<Rightarrow> nat \<Rightarrow> int" where
  "count_at L R C Pr a = copt C (L a) + (if Pr a then 1 else 0) + copt C (R a)"

definition counts_ok ::
  "nat \<Rightarrow> (nat \<Rightarrow> nat option) \<Rightarrow> (nat \<Rightarrow> nat option) \<Rightarrow> (nat \<Rightarrow> int) \<Rightarrow> (nat \<Rightarrow> bool) \<Rightarrow> bool" where
  "counts_ok K L R C Pr \<longleftrightarrow> (\<forall>a<K. C a = count_at L R C Pr a)"

definition bwf :: "state \<Rightarrow> bool" where
  "bwf s \<longleftrightarrow> bgraph (ncount s) (bRootNode s) (bl s) (br s) (bp s)"

definition cwf :: "state \<Rightarrow> bool" where
  "cwf s \<longleftrightarrow> counts_ok (ncount s) (bl s) (br s) (bc s) (pr s)"

lemma copt_simps [simp]: "copt C None = 0" "copt C (Some a) = C a"
  by (simp_all add: copt_def)

lemma bCount_opt_copt: "bCount_opt s p = copt (bc s) p"
  by (cases p) (simp_all add: bCount_opt_def bc_def)

subsection \<open>Consequences of the shape\<close>

lemma bgraph_root:
  assumes "bgraph K root L R P"
  shows "root < K" "P root = None"
  using assms by (simp_all add: bgraph_def)

lemma bgraph_closed:
  assumes "bgraph K root L R P" "a < K"
  shows "optlt (P a) K" "optlt (L a) K" "optlt (R a) K"
  using assms by (simp_all add: bgraph_def)

lemma bgraph_rank:
  assumes "bgraph K root L R P"
  obtains rank where "ranked K P rank"
  using assms by (auto simp: bgraph_def)

lemma rankedD: "ranked K P rank \<Longrightarrow> a < K \<Longrightarrow> P a = Some p \<Longrightarrow> rank p < rank a"
  unfolding ranked_def by blast

lemma bgraph_parent:
  assumes "bgraph K root L R P" "a < K" "P a = Some p"
  shows "L p = Some a \<or> R p = Some a" "p < K" "p \<noteq> a"
proof -
  from assms show "L p = Some a \<or> R p = Some a" by (simp add: bgraph_def)
  from bgraph_closed(1)[OF assms(1,2)] assms(3) show "p < K" by simp
  from bgraph_rank[OF assms(1)] obtain rank where "ranked K P rank" .
  from rankedD[OF this assms(2,3)] show "p \<noteq> a" by auto
qed

lemma bgraph_left:
  assumes "bgraph K root L R P" "a < K" "L a = Some c"
  shows "c < K" "P c = Some a" "R a \<noteq> Some c" "c \<noteq> a" "c \<noteq> root"
proof -
  from bgraph_closed(2)[OF assms(1,2)] assms(3) show 1: "c < K" by simp
  from assms show 2: "P c = Some a" by (simp add: bgraph_def)
  from assms show "R a \<noteq> Some c" by (simp add: bgraph_def)
  from bgraph_parent(3)[OF assms(1) 1 2] show "c \<noteq> a" by simp
  from bgraph_root(2)[OF assms(1)] 2 show "c \<noteq> root" by auto
qed

lemma bgraph_right:
  assumes "bgraph K root L R P" "a < K" "R a = Some c"
  shows "c < K" "P c = Some a" "L a \<noteq> Some c" "c \<noteq> a" "c \<noteq> root"
proof -
  from bgraph_closed(3)[OF assms(1,2)] assms(3) show 1: "c < K" by simp
  from assms show 2: "P c = Some a" by (simp add: bgraph_def)
  from bgraph_left(3)[OF assms(1,2)] assms(3) show "L a \<noteq> Some c" by blast
  from bgraph_parent(3)[OF assms(1) 1 2] show "c \<noteq> a" by simp
  from bgraph_root(2)[OF assms(1)] 2 show "c \<noteq> root" by auto
qed

lemma bgraph_no_parent:
  assumes "bgraph K root L R P" "a < K" "P a = None"
  shows "a = root"
  using assms by (simp add: bgraph_def)


section \<open>Binary trees laid out in a heap\<close>

text \<open>
  A tree of references describes a part of the heap: \<open>ptree L R P par p t\<close> holds
  when the link \<open>p\<close> leads to the tree \<open>t\<close>, whose nodes are linked by the child
  fields \<open>L\<close> and \<open>R\<close> and the parent field \<open>P\<close>, the root having parent \<open>par\<close>.
\<close>

datatype tr = Lf | Nd tr nat tr

fun nodes_of :: "tr \<Rightarrow> nat set" where
  "nodes_of Lf = {}"
| "nodes_of (Nd l a r) = insert a (nodes_of l \<union> nodes_of r)"

fun inorder :: "tr \<Rightarrow> nat list" where
  "inorder Lf = []"
| "inorder (Nd l a r) = inorder l @ a # inorder r"

fun ptree ::
  "(nat \<Rightarrow> nat option) \<Rightarrow> (nat \<Rightarrow> nat option) \<Rightarrow> (nat \<Rightarrow> nat option) \<Rightarrow>
   nat option \<Rightarrow> nat option \<Rightarrow> tr \<Rightarrow> bool" where
  "ptree L R P par p Lf \<longleftrightarrow> p = None"
| "ptree L R P par p (Nd l a r) \<longleftrightarrow>
     p = Some a \<and> P a = par \<and> ptree L R P (Some a) (L a) l \<and> ptree L R P (Some a) (R a) r"

definition btree ::
  "nat \<Rightarrow> nat \<Rightarrow> (nat \<Rightarrow> nat option) \<Rightarrow> (nat \<Rightarrow> nat option) \<Rightarrow> (nat \<Rightarrow> nat option) \<Rightarrow>
   tr \<Rightarrow> bool" where
  "btree K root L R P t \<longleftrightarrow>
     ptree L R P None (Some root) t \<and> distinct (inorder t) \<and> nodes_of t = {..<K}"

lemma set_inorder [simp]: "set (inorder t) = nodes_of t"
  by (induction t) auto

lemma ptree_None [simp]: "ptree L R P par None t \<longleftrightarrow> t = Lf"
  by (cases t) auto

lemma ptree_Some:
  "ptree L R P par (Some a) t \<longleftrightarrow>
     (\<exists>l r. t = Nd l a r \<and> P a = par \<and> ptree L R P (Some a) (L a) l \<and>
            ptree L R P (Some a) (R a) r)"
  by (cases t) auto

lemma ptree_frame:
  assumes "\<forall>a\<in>nodes_of t. L' a = L a \<and> R' a = R a \<and> P' a = P a"
  shows "ptree L' R' P' par p t \<longleftrightarrow> ptree L R P par p t"
  using assms by (induction t arbitrary: par p) auto

lemma ptree_unique:
  "ptree L R P par p t \<Longrightarrow> ptree L R P par' p t' \<Longrightarrow> t = t'"
proof (induction t arbitrary: par par' p t')
  case Lf
  then show ?case by simp
next
  case (Nd l a r)
  from Nd.prems obtain l' r' where t': "t' = Nd l' a r'"
    and "ptree L R P (Some a) (L a) l'" "ptree L R P (Some a) (R a) r'"
    by (auto simp: ptree_Some)
  with Nd show ?case by auto
qed

text \<open>Links out of a node of the tree stay in the tree.\<close>

lemma ptree_child:
  assumes "ptree L R P par p t" "a \<in> nodes_of t"
  shows "(\<forall>c. L a = Some c \<longrightarrow> c \<in> nodes_of t \<and> P c = Some a) \<and>
         (\<forall>c. R a = Some c \<longrightarrow> c \<in> nodes_of t \<and> P c = Some a)"
  using assms
proof (induction t arbitrary: par p)
  case Lf
  then show ?case by simp
next
  case (Nd l x r)
  from Nd.prems(1) have l: "ptree L R P (Some x) (L x) l" and r: "ptree L R P (Some x) (R x) r"
    by auto
  show ?case
  proof (cases "a = x")
    case True
    show ?thesis
    proof (intro conjI allI impI)
      fix c assume "L a = Some c"
      with l True show "c \<in> nodes_of (Nd l x r)" "P c = Some a"
        by (auto simp: ptree_Some)
    next
      fix c assume "R a = Some c"
      with r True show "c \<in> nodes_of (Nd l x r)" "P c = Some a"
        by (auto simp: ptree_Some)
    qed
  next
    case False
    with Nd.prems(2) consider "a \<in> nodes_of l" | "a \<in> nodes_of r" by auto
    then show ?thesis
    proof cases
      case 1
      from Nd.IH(1)[OF l 1] show ?thesis by auto
    next
      case 2
      from Nd.IH(2)[OF r 2] show ?thesis by auto
    qed
  qed
qed

text \<open>A node of the tree is the root, or its parent is in the tree and points to it.\<close>

lemma ptree_parent:
  assumes "ptree L R P par p t" "a \<in> nodes_of t"
  shows "(p = Some a \<and> P a = par) \<or>
         (\<exists>g\<in>nodes_of t. P a = Some g \<and> (L g = Some a \<or> R g = Some a))"
  using assms
proof (induction t arbitrary: par p)
  case Lf
  then show ?case by simp
next
  case (Nd l x r)
  from Nd.prems(1) have l: "ptree L R P (Some x) (L x) l" and r: "ptree L R P (Some x) (R x) r"
    and p: "p = Some x" "P x = par"
    by auto
  show ?case
  proof (cases "a = x")
    case True
    with p show ?thesis by simp
  next
    case False
    with Nd.prems(2) consider "a \<in> nodes_of l" | "a \<in> nodes_of r" by auto
    then show ?thesis
    proof cases
      case 1
      from Nd.IH(1)[OF l 1] show ?thesis by auto
    next
      case 2
      from Nd.IH(2)[OF r 2] show ?thesis by auto
    qed
  qed
qed

text \<open>The depth of a node in a tree, as a rank that decreases towards the root.\<close>

fun depth_in :: "nat \<Rightarrow> tr \<Rightarrow> nat" where
  "depth_in a Lf = 0"
| "depth_in a (Nd l x r) =
     (if a = x then 0 else if a \<in> nodes_of l then Suc (depth_in a l) else Suc (depth_in a r))"

lemma ptree_depth:
  assumes "ptree L R P par p t" "distinct (inorder t)" "a \<in> nodes_of t" "p \<noteq> Some a"
    "P a = Some g"
  shows "depth_in g t < depth_in a t"
  using assms
proof (induction t arbitrary: par p)
  case Lf
  then show ?case by simp
next
  case (Nd l x r)
  from Nd.prems(1) have l: "ptree L R P (Some x) (L x) l" and r: "ptree L R P (Some x) (R x) r"
    and p: "p = Some x" "P x = par"
    by auto
  from Nd.prems(2) have d: "distinct (inorder l)" "distinct (inorder r)"
    "nodes_of l \<inter> nodes_of r = {}" "x \<notin> nodes_of l" "x \<notin> nodes_of r"
    by auto
  from Nd.prems(3,4) p have ax: "a \<noteq> x" by auto
  with Nd.prems(3) consider "a \<in> nodes_of l" | "a \<in> nodes_of r" by auto
  then show ?case
  proof cases
    case 1
    show ?thesis
    proof (cases "L x = Some a")
      case True
      with l have "P a = Some x" by (auto simp: ptree_Some)
      with Nd.prems(5) ax show ?thesis by simp
    next
      case False
      with ptree_parent[OF l 1] Nd.prems(5) have gl: "g \<in> nodes_of l" by auto
      from Nd.IH(1)[OF l d(1) 1 False Nd.prems(5)] 1 gl d ax show ?thesis by auto
    qed
  next
    case 2
    show ?thesis
    proof (cases "R x = Some a")
      case True
      with r have "P a = Some x" by (auto simp: ptree_Some)
      with Nd.prems(5) ax show ?thesis by simp
    next
      case False
      with ptree_parent[OF r 2] Nd.prems(5) have gr: "g \<in> nodes_of r" by auto
      from Nd.IH(2)[OF r d(2) 2 False Nd.prems(5)] 2 gr d ax show ?thesis by auto
    qed
  qed
qed

lemma ptree_left_ne_right:
  assumes "ptree L R P par p t" "distinct (inorder t)" "a \<in> nodes_of t" "L a = Some c"
  shows "R a \<noteq> Some c"
  using assms
proof (induction t arbitrary: par p)
  case Lf
  then show ?case by simp
next
  case (Nd l x r)
  from Nd.prems(1) have l: "ptree L R P (Some x) (L x) l" and r: "ptree L R P (Some x) (R x) r"
    by auto
  from Nd.prems(2) have d: "distinct (inorder l)" "distinct (inorder r)"
    "nodes_of l \<inter> nodes_of r = {}" "x \<notin> nodes_of l" "x \<notin> nodes_of r"
    by auto
  show ?case
  proof (cases "a = x")
    case True
    with l r Nd.prems(4) d(3) show ?thesis by (auto simp: ptree_Some)
  next
    case False
    with Nd.prems(3) consider "a \<in> nodes_of l" | "a \<in> nodes_of r" by auto
    then show ?thesis
    proof cases
      case 1 from Nd.IH(1)[OF l d(1) 1 Nd.prems(4)] show ?thesis .
    next
      case 2 from Nd.IH(2)[OF r d(2) 2 Nd.prems(4)] show ?thesis .
    qed
  qed
qed

text \<open>The tree view gives the graph view.\<close>

lemma btree_bgraph:
  assumes "btree K root L R P t"
  shows "bgraph K root L R P"
proof -
  from assms have pt: "ptree L R P None (Some root) t" and d: "distinct (inorder t)"
    and n: "nodes_of t = {..<K}"
    by (auto simp: btree_def)
  from pt obtain l r where t: "t = Nd l root r" and Pr: "P root = None"
    by (auto simp: ptree_Some)
  have root: "root < K" using n t by auto
  have inT: "a \<in> nodes_of t \<longleftrightarrow> a < K" for a using n by auto
  have cl: "optlt (P a) K \<and> optlt (L a) K \<and> optlt (R a) K" if "a < K" for a
  proof -
    from that have a: "a \<in> nodes_of t" by (simp add: inT)
    from ptree_child[OF pt a] ptree_parent[OF pt a] inT
    show ?thesis by (cases "P a"; cases "L a"; cases "R a") auto
  qed
  have 3: "P c = Some a \<and> R a \<noteq> Some c" if "a < K" "L a = Some c" for a c
    using ptree_child[OF pt] ptree_left_ne_right[OF pt d] that inT by blast
  have 4: "P c = Some a" if "a < K" "R a = Some c" for a c
    using ptree_child[OF pt] that inT by blast
  have 5: "L p = Some a \<or> R p = Some a" if "a < K" "P a = Some p" for a p
    using ptree_parent[OF pt, of a] that inT by auto
  have 6: "a = root" if "a < K" "P a = None" for a
    using ptree_parent[OF pt, of a] that inT by auto
  have 7: "ranked K P (\<lambda>a. depth_in a t)"
    unfolding ranked_def
  proof (intro allI impI)
    fix a p assume a: "a < K" and p: "P a = Some p"
    with Pr have "Some root \<noteq> Some a" by auto
    from ptree_depth[OF pt d _ this p] a inT show "depth_in p t < depth_in a t" by simp
  qed
  show ?thesis
    unfolding bgraph_def using root Pr cl 3 4 5 6 7 by blast
qed


subsection \<open>Replacing a subtree\<close>

fun sub_at :: "nat \<Rightarrow> tr \<Rightarrow> tr" where
  "sub_at x Lf = Lf"
| "sub_at x (Nd l a r) =
     (if a = x then Nd l a r else if x \<in> nodes_of l then sub_at x l else sub_at x r)"

fun subst_at :: "nat \<Rightarrow> tr \<Rightarrow> tr \<Rightarrow> tr" where
  "subst_at x t' Lf = Lf"
| "subst_at x t' (Nd l a r) =
     (if a = x then t' else Nd (subst_at x t' l) a (subst_at x t' r))"

lemma sub_at_notin [simp]: "x \<notin> nodes_of t \<Longrightarrow> sub_at x t = Lf"
  by (induction t) auto

lemma subst_at_notin [simp]: "x \<notin> nodes_of t \<Longrightarrow> subst_at x t' t = t"
  by (induction t) auto

lemma nodes_sub_at: "nodes_of (sub_at x t) \<subseteq> nodes_of t"
  by (induction t) auto

lemma sub_at_root: "x \<in> nodes_of t \<Longrightarrow> \<exists>l r. sub_at x t = Nd l x r"
  by (induction t) auto

lemma distinct_sub_at: "distinct (inorder t) \<Longrightarrow> distinct (inorder (sub_at x t))"
  by (induction t) auto

lemma ptree_sub_at:
  assumes "ptree L R P par p t" "x \<in> nodes_of t"
  shows "ptree L R P (P x) (Some x) (sub_at x t)"
  using assms
proof (induction t arbitrary: par p)
  case Lf
  then show ?case by simp
next
  case (Nd l a r)
  then show ?case by (cases "a = x") auto
qed

lemma inorder_subst_at:
  assumes "distinct (inorder t)" "x \<in> nodes_of t"
  shows "\<exists>xs ys. inorder t = xs @ inorder (sub_at x t) @ ys \<and>
                 inorder (subst_at x t' t) = xs @ inorder t' @ ys"
  using assms
proof (induction t)
  case Lf
  then show ?case by simp
next
  case (Nd l a r)
  show ?case
  proof (cases "a = x")
    case True
    then have
      "inorder (Nd l a r) = [] @ inorder (sub_at x (Nd l a r)) @ [] \<and>
       inorder (subst_at x t' (Nd l a r)) = [] @ inorder t' @ []"
      by auto
    then show ?thesis by blast
  next
    case False
    from Nd.prems(1) have d: "distinct (inorder l)" "distinct (inorder r)"
      "nodes_of l \<inter> nodes_of r = {}"
      by auto
    from False Nd.prems(2) consider "x \<in> nodes_of l" | "x \<in> nodes_of r" "x \<notin> nodes_of l"
      by auto
    then show ?thesis
    proof cases
      case 1
      with d have xr: "x \<notin> nodes_of r" by auto
      from Nd.IH(1)[OF d(1) 1] obtain xs ys where
        "inorder l = xs @ inorder (sub_at x l) @ ys"
        "inorder (subst_at x t' l) = xs @ inorder t' @ ys" by blast
      with False 1 xr have
        "inorder (Nd l a r) = xs @ inorder (sub_at x (Nd l a r)) @ (ys @ a # inorder r) \<and>
         inorder (subst_at x t' (Nd l a r)) = xs @ inorder t' @ (ys @ a # inorder r)"
        by auto
      then show ?thesis by blast
    next
      case 2
      from Nd.IH(2)[OF d(2) 2(1)] obtain xs ys where
        "inorder r = xs @ inorder (sub_at x r) @ ys"
        "inorder (subst_at x t' r) = xs @ inorder t' @ ys" by blast
      with False 2 have
        "inorder (Nd l a r) = (inorder l @ a # xs) @ inorder (sub_at x (Nd l a r)) @ ys \<and>
         inorder (subst_at x t' (Nd l a r)) = (inorder l @ a # xs) @ inorder t' @ ys"
        by auto
      then show ?thesis by blast
    qed
  qed
qed

lemma inorder_subst_same:
  assumes "distinct (inorder t)" "x \<in> nodes_of t" "inorder t' = inorder (sub_at x t)"
  shows "inorder (subst_at x t' t) = inorder t"
  using inorder_subst_at[OF assms(1,2), of t'] assms(3) by auto

text \<open>
  A tree keeps its shape when the links of its nodes are kept, except that the root
  may get another parent.
\<close>

lemma ptree_reparent:
  assumes "ptree L R P par p t" "distinct (inorder t)"
    and "\<forall>a\<in>nodes_of t. L' a = L a \<and> R' a = R a"
    and "\<forall>a\<in>nodes_of t. p \<noteq> Some a \<longrightarrow> P' a = P a"
    and "\<forall>a. p = Some a \<longrightarrow> P' a = par'"
  shows "ptree L' R' P' par' p t"
proof (cases t)
  case Lf
  with assms(1) show ?thesis by simp
next
  case (Nd l a r)
  with assms(1) have p: "p = Some a" and l: "ptree L R P (Some a) (L a) l"
    and r: "ptree L R P (Some a) (R a) r" by auto
  from assms(2) Nd have d: "a \<notin> nodes_of l" "a \<notin> nodes_of r" by auto
  have "ptree L' R' P' (Some a) (L a) l"
    using l assms(3,4) Nd p d by (subst ptree_frame[where L = L and R = R and P = P]) auto
  moreover have "ptree L' R' P' (Some a) (R a) r"
    using r assms(3,4) Nd p d by (subst ptree_frame[where L = L and R = R and P = P]) auto
  ultimately show ?thesis
    using Nd p assms(3,5) by auto
qed

text \<open>
  The subtree at \<open>x\<close> is replaced by a tree with root link \<open>x'\<close>: outside the old
  subtree only the child link to \<open>x\<close> changes.
\<close>

lemma ptree_subst:
  assumes "ptree L R P par p t" "distinct (inorder t)" "x \<in> nodes_of t"
    and out: "\<forall>a\<in>nodes_of t - nodes_of (sub_at x t).
        P' a = P a \<and> L' a = (if L a = Some x then Some x' else L a) \<and>
        R' a = (if R a = Some x then Some x' else R a)"
    and new: "ptree L' R' P' (P x) (Some x') t'"
  shows "ptree L' R' P' par (if p = Some x then Some x' else p) (subst_at x t' t)"
  using assms(1,2,3) out
proof (induction t arbitrary: par p)
  case Lf
  then show ?case by simp
next
  case (Nd l a r)
  from Nd.prems(1) have p: "p = Some a" "P a = par"
    and l: "ptree L R P (Some a) (L a) l" and r: "ptree L R P (Some a) (R a) r"
    by auto
  from Nd.prems(2) have d: "distinct (inorder l)" "distinct (inorder r)"
    "nodes_of l \<inter> nodes_of r = {}" "a \<notin> nodes_of l" "a \<notin> nodes_of r"
    by auto
  show ?case
  proof (cases "a = x")
    case True
    with p new show ?thesis by simp
  next
    case False
    have sub: "nodes_of (sub_at x (Nd l a r)) \<subseteq> nodes_of l \<union> nodes_of r"
      using False nodes_sub_at[of x l] nodes_sub_at[of x r] by auto
    then have a_out: "a \<in> nodes_of (Nd l a r) - nodes_of (sub_at x (Nd l a r))"
      using d by auto
    from Nd.prems(4) a_out have Pa: "P' a = P a"
      and La: "L' a = (if L a = Some x then Some x' else L a)"
      and Ra: "R' a = (if R a = Some x then Some x' else R a)" by blast+
    have side: "ptree L' R' P' (Some a) (if q = Some x then Some x' else q) (subst_at x t' u)"
      if u: "ptree L R P (Some a) q u" "distinct (inorder u)"
        and uu: "nodes_of u \<subseteq> nodes_of l \<union> nodes_of r"
        and other: "x \<notin> nodes_of u \<Longrightarrow> nodes_of u \<inter> nodes_of (sub_at x (Nd l a r)) = {}"
        and same: "x \<in> nodes_of u \<Longrightarrow> sub_at x (Nd l a r) = sub_at x u"
        and IH: "\<And>par p. ptree L R P par p u \<Longrightarrow> distinct (inorder u) \<Longrightarrow> x \<in> nodes_of u \<Longrightarrow>
            \<forall>a\<in>nodes_of u - nodes_of (sub_at x u).
              P' a = P a \<and> L' a = (if L a = Some x then Some x' else L a) \<and>
              R' a = (if R a = Some x then Some x' else R a) \<Longrightarrow>
            ptree L' R' P' par (if p = Some x then Some x' else p) (subst_at x t' u)"
      for q u
    proof (cases "x \<in> nodes_of u")
      case True
      have "\<forall>b\<in>nodes_of u - nodes_of (sub_at x u).
              P' b = P b \<and> L' b = (if L b = Some x then Some x' else L b) \<and>
              R' b = (if R b = Some x then Some x' else R b)"
        using Nd.prems(4) same[OF True] uu by auto
      from IH[OF u True this] show ?thesis .
    next
      case False
      have qx: "q \<noteq> Some x" using u(1) False by (cases u) auto
      have fr: "\<forall>b\<in>nodes_of u. L' b = L b \<and> R' b = R b \<and> P' b = P b"
      proof
        fix b assume b: "b \<in> nodes_of u"
        with other[OF False] uu have "b \<in> nodes_of (Nd l a r) - nodes_of (sub_at x (Nd l a r))"
          by auto
        with Nd.prems(4) have "P' b = P b"
          "L' b = (if L b = Some x then Some x' else L b)"
          "R' b = (if R b = Some x then Some x' else R b)" by blast+
        moreover from ptree_child[OF u(1) b] False have "L b \<noteq> Some x" "R b \<noteq> Some x"
          by auto
        ultimately show "L' b = L b \<and> R' b = R b \<and> P' b = P b" by simp
      qed
      from u(1) have "ptree L' R' P' (Some a) q u"
        by (subst ptree_frame[where L = L and R = R and P = P]) (use fr in auto)
      with qx False show ?thesis by simp
    qed
    have xl: "x \<in> nodes_of l \<Longrightarrow> sub_at x (Nd l a r) = sub_at x l"
      and xr: "x \<in> nodes_of r \<Longrightarrow> sub_at x (Nd l a r) = sub_at x r"
      using False d by auto
    have ol: "x \<notin> nodes_of l \<Longrightarrow> nodes_of l \<inter> nodes_of (sub_at x (Nd l a r)) = {}"
      using False d nodes_sub_at[of x r] by auto
    have or: "x \<notin> nodes_of r \<Longrightarrow> nodes_of r \<inter> nodes_of (sub_at x (Nd l a r)) = {}"
      using False d nodes_sub_at[of x l] Nd.prems(3) by auto
    have "ptree L' R' P' (Some a) (L' a) (subst_at x t' l)"
      unfolding La by (rule side[OF l d(1) _ ol xl Nd.IH(1)]) auto
    moreover have "ptree L' R' P' (Some a) (R' a) (subst_at x t' r)"
      unfolding Ra by (rule side[OF r d(2) _ or xr Nd.IH(2)]) auto
    ultimately show ?thesis
      using False p Pa by simp
  qed
qed


subsection \<open>Mirror images\<close>

fun mirror :: "tr \<Rightarrow> tr" where
  "mirror Lf = Lf"
| "mirror (Nd l a r) = Nd (mirror r) a (mirror l)"

lemma nodes_mirror [simp]: "nodes_of (mirror t) = nodes_of t"
  by (induction t) auto

lemma inorder_mirror [simp]: "inorder (mirror t) = rev (inorder t)"
  by (induction t) auto

lemma ptree_mirror [simp]: "ptree R L P par p (mirror t) \<longleftrightarrow> ptree L R P par p t"
  by (induction t arbitrary: par p) auto

lemma btree_mirror: "btree K root R L P (mirror t) \<longleftrightarrow> btree K root L R P t"
  by (simp add: btree_def)

subsection \<open>Depth inside a subtree\<close>

lemma depth_in_sub_at:
  assumes "distinct (inorder t)" "a \<in> nodes_of (sub_at x t)"
  shows "depth_in a t = depth_in x t + depth_in a (sub_at x t)"
  using assms
proof (induction t)
  case Lf
  then show ?case by simp
next
  case (Nd l y r)
  from Nd.prems(1) have d: "distinct (inorder l)" "distinct (inorder r)"
    "nodes_of l \<inter> nodes_of r = {}" "y \<notin> nodes_of l" "y \<notin> nodes_of r"
    by auto
  show ?case
  proof (cases "y = x")
    case True
    then show ?thesis by simp
  next
    case False
    show ?thesis
    proof (cases "x \<in> nodes_of l")
      case True
      with False Nd.prems(2) have a: "a \<in> nodes_of (sub_at x l)" by simp
      with nodes_sub_at[of x l] have "a \<in> nodes_of l" by auto
      with Nd.IH(1)[OF d(1) a] d False True show ?thesis by auto
    next
      case xl: False
      with False Nd.prems(2) have a: "a \<in> nodes_of (sub_at x r)" by simp
      with nodes_sub_at[of x r] have ar: "a \<in> nodes_of r" by auto
      then have xr: "x \<in> nodes_of r" using a by (cases "x \<in> nodes_of r") auto
      from Nd.IH(2)[OF d(2) a] d False xl ar xr show ?thesis by auto
    qed
  qed
qed

lemma parent_notin_sub_at:
  assumes "btree K root L R P t" "x < K" "P x = Some g"
  shows "g \<notin> nodes_of (sub_at x t)"
proof
  assume g: "g \<in> nodes_of (sub_at x t)"
  from assms(1) have pt: "ptree L R P None (Some root) t" and d: "distinct (inorder t)"
    and n: "nodes_of t = {..<K}" by (auto simp: btree_def)
  from assms(2) n have x: "x \<in> nodes_of t" by auto
  from pt assms(3) have "Some root \<noteq> Some x" by (auto simp: ptree_Some)
  from ptree_depth[OF pt d x this assms(3)] depth_in_sub_at[OF d g]
  show False by simp
qed

subsection \<open>Rotations\<close>

definition updo :: "(nat \<Rightarrow> 'a) \<Rightarrow> nat option \<Rightarrow> 'a \<Rightarrow> (nat \<Rightarrow> 'a)" where
  "updo f p v = (case p of None \<Rightarrow> f | Some a \<Rightarrow> f(a := v))"

lemma updo_simps [simp]: "updo f None v = f" "updo f (Some a) v = f(a := v)"
  by (simp_all add: updo_def)

text \<open>Relinking a subtree root: the parent \<open>G\<close> of \<open>X\<close> gets \<open>N\<close> in place of \<open>X\<close>.\<close>

definition relinkC ::
  "(nat \<Rightarrow> nat option) \<Rightarrow> nat option \<Rightarrow> nat \<Rightarrow> nat \<Rightarrow> (nat \<Rightarrow> nat option)" where
  "relinkC C G X N =
     (case G of None \<Rightarrow> C | Some g \<Rightarrow> if C g = Some X then C(g := Some N) else C)"

lemma btree_rotate_left:
  assumes bt: "btree K root L R P t" and Z: "Z < K" and PZ: "P Z = Some X" and RX: "R X = Some Z"
  shows "\<exists>t'. btree K (case P X of None \<Rightarrow> Z | Some _ \<Rightarrow> root)
           (relinkC (L(Z := Some X)) (P X) X Z)
           (relinkC (R(X := L Z)) (P X) X Z)
           ((updo P (L Z) (Some X))(X := Some Z, Z := P X)) t' \<and>
         inorder t' = inorder t"
proof -
  let ?root = "case P X of None \<Rightarrow> Z | Some _ \<Rightarrow> root"
  let ?L = "relinkC (L(Z := Some X)) (P X) X Z"
  let ?R = "relinkC (R(X := L Z)) (P X) X Z"
  let ?P = "(updo P (L Z) (Some X))(X := Some Z, Z := P X)"
  note g = btree_bgraph[OF bt]
  from bt have pt: "ptree L R P None (Some root) t" and d: "distinct (inorder t)"
    and n: "nodes_of t = {..<K}" by (auto simp: btree_def)
  from bgraph_parent[OF g Z PZ] have X: "X < K" "X \<noteq> Z" by auto
  from X n have Xt: "X \<in> nodes_of t" by auto
  from ptree_sub_at[OF pt Xt] RX obtain t1 t2 t3 where
    sub: "sub_at X t = Nd t1 X (Nd t2 Z t3)" and
    p1: "ptree L R P (Some X) (L X) t1" and
    p2: "ptree L R P (Some Z) (L Z) t2" and
    p3: "ptree L R P (Some Z) (R Z) t3"
    by (auto simp: ptree_Some)
  from distinct_sub_at[OF d, of X] sub have
    dd: "distinct (inorder t1)" "distinct (inorder t2)" "distinct (inorder t3)"
      "X \<notin> nodes_of t1" "X \<notin> nodes_of t2" "X \<notin> nodes_of t3"
      "Z \<notin> nodes_of t1" "Z \<notin> nodes_of t2" "Z \<notin> nodes_of t3"
      "nodes_of t1 \<inter> nodes_of t2 = {}" "nodes_of t1 \<inter> nodes_of t3 = {}"
      "nodes_of t2 \<inter> nodes_of t3 = {}"
    by auto
  have gsub: "g \<notin> nodes_of (sub_at X t)" if "P X = Some g" for g
    using parent_notin_sub_at[OF bt X(1) that] .
  have LZ: "c \<in> nodes_of t2" if "L Z = Some c" for c
    using p2 that by (auto simp: ptree_Some)
  text \<open>The links inside the old subtree after the rotation.\<close>
  have Lin: "?L a = (L(Z := Some X)) a" and Rin: "?R a = (R(X := L Z)) a"
    if "a \<in> nodes_of (sub_at X t)" for a
    using gsub that by (cases "P X"; auto simp: relinkC_def)+
  let ?t' = "Nd (Nd t1 X t2) Z t3"
  have n1: "ptree ?L ?R ?P (Some X) (L X) t1"
  proof (subst ptree_frame[where L = L and R = R and P = P])
    show "\<forall>a\<in>nodes_of t1. ?L a = L a \<and> ?R a = R a \<and> ?P a = P a"
    proof
      fix a assume a: "a \<in> nodes_of t1"
      with sub have "a \<in> nodes_of (sub_at X t)" by simp
      from Lin[OF this] Rin[OF this] a dd LZ show "?L a = L a \<and> ?R a = R a \<and> ?P a = P a"
        by (cases "L Z") auto
    qed
  qed (rule p1)
  have n3: "ptree ?L ?R ?P (Some Z) (R Z) t3"
  proof (subst ptree_frame[where L = L and R = R and P = P])
    show "\<forall>a\<in>nodes_of t3. ?L a = L a \<and> ?R a = R a \<and> ?P a = P a"
    proof
      fix a assume a: "a \<in> nodes_of t3"
      with sub have "a \<in> nodes_of (sub_at X t)" by simp
      from Lin[OF this] Rin[OF this] a dd LZ show "?L a = L a \<and> ?R a = R a \<and> ?P a = P a"
        by (cases "L Z") auto
    qed
  qed (rule p3)
  have n2: "ptree ?L ?R ?P (Some X) (L Z) t2"
  proof (rule ptree_reparent[OF p2 dd(2)])
    show "\<forall>a\<in>nodes_of t2. ?L a = L a \<and> ?R a = R a"
    proof
      fix a assume a: "a \<in> nodes_of t2"
      with sub have "a \<in> nodes_of (sub_at X t)" by simp
      from Lin[OF this] Rin[OF this] a dd show "?L a = L a \<and> ?R a = R a" by auto
    qed
    show "\<forall>a\<in>nodes_of t2. L Z \<noteq> Some a \<longrightarrow> ?P a = P a"
      using dd by (cases "L Z") auto
    show "\<forall>a. L Z = Some a \<longrightarrow> ?P a = Some X"
      using LZ dd by auto
  qed
  have LX: "?L X = L X" "?R X = L Z" "?L Z = Some X" "?R Z = R Z"
    using Lin[of X] Rin[of X] Lin[of Z] Rin[of Z] sub X by auto
  have new: "ptree ?L ?R ?P (P X) (Some Z) ?t'"
    using n1 n2 n3 LX X by simp
  have out: "\<forall>a\<in>nodes_of t - nodes_of (sub_at X t).
      ?P a = P a \<and> ?L a = (if L a = Some X then Some Z else L a) \<and>
      ?R a = (if R a = Some X then Some Z else R a)"
  proof
    fix a assume a: "a \<in> nodes_of t - nodes_of (sub_at X t)"
    with n have aK: "a < K" by auto
    from a sub have ne: "a \<noteq> X" "a \<noteq> Z" "a \<notin> nodes_of t2" by auto
    have 1: "?P a = P a" using ne LZ by (cases "L Z") auto
    have 2: "?L a = (if L a = Some X then Some Z else L a)"
    proof (cases "L a = Some X")
      case True
      with bgraph_left(2)[OF g aK True] ne show ?thesis by (simp add: relinkC_def)
    next
      case False
      with ne show ?thesis by (cases "P X") (auto simp: relinkC_def)
    qed
    have 3: "?R a = (if R a = Some X then Some Z else R a)"
    proof (cases "R a = Some X")
      case True
      with bgraph_right(2)[OF g aK True] ne show ?thesis by (simp add: relinkC_def)
    next
      case False
      with ne show ?thesis by (cases "P X") (auto simp: relinkC_def)
    qed
    from 1 2 3 show "?P a = P a \<and> ?L a = (if L a = Some X then Some Z else L a) \<and>
      ?R a = (if R a = Some X then Some Z else R a)" by blast
  qed
  from ptree_subst[OF pt d Xt out new]
  have pt': "ptree ?L ?R ?P None (if Some root = Some X then Some Z else Some root)
      (subst_at X ?t' t)" .
  have rt: "(if Some root = Some X then Some Z else Some root) = Some ?root"
    using bgraph_root[OF g] bgraph_no_parent[OF g X(1)] by (cases "P X") auto
  have io: "inorder (subst_at X ?t' t) = inorder t"
    by (rule inorder_subst_same[OF d Xt]) (simp add: sub)
  have ns: "nodes_of (subst_at X ?t' t) = nodes_of t"
    using arg_cong[OF io, of set] by simp
  have "btree K ?root ?L ?R ?P (subst_at X ?t' t)"
    unfolding btree_def using pt' d n by (simp only: rt io ns)
  with io show ?thesis by blast
qed


lemma btree_rotate_right:
  assumes bt: "btree K root L R P t" and Z: "Z < K" and PZ: "P Z = Some X" and LX: "L X = Some Z"
  shows "\<exists>t'. btree K (case P X of None \<Rightarrow> Z | Some _ \<Rightarrow> root)
           (relinkC (L(X := R Z)) (P X) X Z)
           (relinkC (R(Z := Some X)) (P X) X Z)
           ((updo P (R Z) (Some X))(X := Some Z, Z := P X)) t' \<and>
         inorder t' = inorder t"
proof -
  from bt have "btree K root R L P (mirror t)" by (simp add: btree_mirror)
  from btree_rotate_left[OF this Z PZ LX] obtain t' where
    t': "btree K (case P X of None \<Rightarrow> Z | Some _ \<Rightarrow> root)
           (relinkC (R(Z := Some X)) (P X) X Z)
           (relinkC (L(X := R Z)) (P X) X Z)
           ((updo P (R Z) (Some X))(X := Some Z, Z := P X)) t'"
    and io: "inorder t' = inorder (mirror t)" by blast
  have mm: "mirror (mirror u) = u" for u by (induction u) auto
  from t' have "btree K (case P X of None \<Rightarrow> Z | Some _ \<Rightarrow> root)
           (relinkC (L(X := R Z)) (P X) X Z)
           (relinkC (R(Z := Some X)) (P X) X Z)
           ((updo P (R Z) (Some X))(X := Some Z, Z := P X)) (mirror t')"
    using btree_mirror[of K _ "relinkC (R(Z := Some X)) (P X) X Z"
        "relinkC (L(X := R Z)) (P X) X Z" _ "mirror t'"]
    by (simp add: mm)
  moreover have "inorder (mirror t') = inorder t" using io by simp
  ultimately show ?thesis by blast
qed

section \<open>The balanced index of a state\<close>

definition bt :: "state \<Rightarrow> tr \<Rightarrow> bool" where
  "bt s t \<longleftrightarrow> btree (ncount s) (bRootNode s) (bl s) (br s) (bp s) t"

lemma upd_fields [simp]:
  "ncount (upd s a f) = ncount s"
  "bRootNode (upd s a f) = bRootNode s"
  "rootNode (upd s a f) = rootNode s"
  "nodesByID (upd s a f) = nodesByID s"
  "leftSALM (upd s a f) = leftSALM s"
  "rightSALM (upd s a f) = rightSALM s"
  "nodes (upd s a f) b = (if b = a then f (nodes s a) else nodes s b)"
  by (simp_all add: upd_def)

lemma view_upd_bLeftChild [simp]:
  "bl (upd s a (\<lambda>n. n\<lparr>bLeftChild := v\<rparr>)) = (bl s)(a := v)"
  "br (upd s a (\<lambda>n. n\<lparr>bLeftChild := v\<rparr>)) = br s"
  "bp (upd s a (\<lambda>n. n\<lparr>bLeftChild := v\<rparr>)) = bp s"
  "bc (upd s a (\<lambda>n. n\<lparr>bLeftChild := v\<rparr>)) = bc s"
  "pr (upd s a (\<lambda>n. n\<lparr>bLeftChild := v\<rparr>)) = pr s"
  by (auto simp: bl_def br_def bp_def bc_def pr_def fun_eq_iff)

lemma view_upd_bRightChild [simp]:
  "bl (upd s a (\<lambda>n. n\<lparr>bRightChild := v\<rparr>)) = bl s"
  "br (upd s a (\<lambda>n. n\<lparr>bRightChild := v\<rparr>)) = (br s)(a := v)"
  "bp (upd s a (\<lambda>n. n\<lparr>bRightChild := v\<rparr>)) = bp s"
  "bc (upd s a (\<lambda>n. n\<lparr>bRightChild := v\<rparr>)) = bc s"
  "pr (upd s a (\<lambda>n. n\<lparr>bRightChild := v\<rparr>)) = pr s"
  by (auto simp: bl_def br_def bp_def bc_def pr_def fun_eq_iff)

lemma view_upd_bParent [simp]:
  "bl (upd s a (\<lambda>n. n\<lparr>bParent := v\<rparr>)) = bl s"
  "br (upd s a (\<lambda>n. n\<lparr>bParent := v\<rparr>)) = br s"
  "bp (upd s a (\<lambda>n. n\<lparr>bParent := v\<rparr>)) = (bp s)(a := v)"
  "bc (upd s a (\<lambda>n. n\<lparr>bParent := v\<rparr>)) = bc s"
  "pr (upd s a (\<lambda>n. n\<lparr>bParent := v\<rparr>)) = pr s"
  by (auto simp: bl_def br_def bp_def bc_def pr_def fun_eq_iff)

lemma view_upd_bF [simp]:
  "bl (upd s a (\<lambda>n. n\<lparr>bF := v\<rparr>)) = bl s"
  "br (upd s a (\<lambda>n. n\<lparr>bF := v\<rparr>)) = br s"
  "bp (upd s a (\<lambda>n. n\<lparr>bF := v\<rparr>)) = bp s"
  "bc (upd s a (\<lambda>n. n\<lparr>bF := v\<rparr>)) = bc s"
  "pr (upd s a (\<lambda>n. n\<lparr>bF := v\<rparr>)) = pr s"
  by (auto simp: bl_def br_def bp_def bc_def pr_def fun_eq_iff)

lemma view_upd_bCount [simp]:
  "bl (upd s a (\<lambda>n. n\<lparr>bCount := v n\<rparr>)) = bl s"
  "br (upd s a (\<lambda>n. n\<lparr>bCount := v n\<rparr>)) = br s"
  "bp (upd s a (\<lambda>n. n\<lparr>bCount := v n\<rparr>)) = bp s"
  "bc (upd s a (\<lambda>n. n\<lparr>bCount := v n\<rparr>)) = (bc s)(a := v (nodes s a))"
  "pr (upd s a (\<lambda>n. n\<lparr>bCount := v n\<rparr>)) = pr s"
  by (auto simp: bl_def br_def bp_def bc_def pr_def fun_eq_iff)

lemma view_upd_isPresent [simp]:
  "bl (upd s a (\<lambda>n. n\<lparr>isPresent := v\<rparr>)) = bl s"
  "br (upd s a (\<lambda>n. n\<lparr>isPresent := v\<rparr>)) = br s"
  "bp (upd s a (\<lambda>n. n\<lparr>isPresent := v\<rparr>)) = bp s"
  "bc (upd s a (\<lambda>n. n\<lparr>isPresent := v\<rparr>)) = bc s"
  "pr (upd s a (\<lambda>n. n\<lparr>isPresent := v\<rparr>)) = (pr s)(a := v)"
  by (auto simp: bl_def br_def bp_def bc_def pr_def fun_eq_iff)

lemma view_set_bParent_opt [simp]:
  "bl (set_bParent_opt s t X) = bl s"
  "br (set_bParent_opt s t X) = br s"
  "bp (set_bParent_opt s t X) = updo (bp s) t (Some X)"
  "bc (set_bParent_opt s t X) = bc s"
  "pr (set_bParent_opt s t X) = pr s"
  "ncount (set_bParent_opt s t X) = ncount s"
  "bRootNode (set_bParent_opt s t X) = bRootNode s"
  by (cases t; simp add: set_bParent_opt_def)+

lemma view_updateBCount [simp]:
  "bl (updateBCount s a) = bl s"
  "br (updateBCount s a) = br s"
  "bp (updateBCount s a) = bp s"
  "bc (updateBCount s a) = (bc s)(a := count_at (bl s) (br s) (bc s) (pr s) a)"
  "pr (updateBCount s a) = pr s"
  "ncount (updateBCount s a) = ncount s"
  "bRootNode (updateBCount s a) = bRootNode s"
  by (auto simp: updateBCount_def bl_def br_def bp_def bc_def pr_def fun_eq_iff count_at_def
      bCount_opt_def copt_def split: option.splits)

text \<open>The links after a single rotation, before the subtree is relinked.\<close>

lemma view_rotate_Left:
  "bl (fst (rotate_Left s X Z)) = (bl s)(Z := Some X)"
  "br (fst (rotate_Left s X Z)) = (br s)(X := bl s Z)"
  "bp (fst (rotate_Left s X Z)) = (updo (bp s) (bl s Z) (Some X))(X := Some Z)"
  "pr (fst (rotate_Left s X Z)) = pr s"
  "ncount (fst (rotate_Left s X Z)) = ncount s"
  "bRootNode (fst (rotate_Left s X Z)) = bRootNode s"
  "snd (rotate_Left s X Z) = Z"
  by (simp_all add: rotate_Left_def Let_def bl_def[of s Z, symmetric])

lemma view_rotate_Right:
  "bl (fst (rotate_Right s X Z)) = (bl s)(X := br s Z)"
  "br (fst (rotate_Right s X Z)) = (br s)(Z := Some X)"
  "bp (fst (rotate_Right s X Z)) = (updo (bp s) (br s Z) (Some X))(X := Some Z)"
  "pr (fst (rotate_Right s X Z)) = pr s"
  "ncount (fst (rotate_Right s X Z)) = ncount s"
  "bRootNode (fst (rotate_Right s X Z)) = bRootNode s"
  "snd (rotate_Right s X Z) = Z"
  by (simp_all add: rotate_Right_def Let_def br_def[of s Z, symmetric])


lemma view_relink:
  "bl (relink s X G N) =
     (case G of None \<Rightarrow> bl s | Some g \<Rightarrow> if bl s g = Some X then (bl s)(g := Some N) else bl s)"
  "br (relink s X G N) =
     (case G of None \<Rightarrow> br s | Some g \<Rightarrow> if bl s g = Some X then br s else (br s)(g := Some N))"
  "bp (relink s X G N) = (bp s)(N := G)"
  "bc (relink s X G N) = bc s"
  "pr (relink s X G N) = pr s"
  "ncount (relink s X G N) = ncount s"
  "bRootNode (relink s X G N) = (case G of None \<Rightarrow> N | Some g \<Rightarrow> bRootNode s)"
proof -
  show "bl (relink s X G N) =
     (case G of None \<Rightarrow> bl s | Some g \<Rightarrow> if bl s g = Some X then (bl s)(g := Some N) else bl s)"
    by (cases G) (auto simp: relink_def Let_def bl_def fun_eq_iff)
  show "br (relink s X G N) =
     (case G of None \<Rightarrow> br s | Some g \<Rightarrow> if bl s g = Some X then br s else (br s)(g := Some N))"
    by (cases G) (auto simp: relink_def Let_def bl_def br_def fun_eq_iff)
  show "bp (relink s X G N) = (bp s)(N := G)"
    by (cases G) (auto simp: relink_def Let_def bl_def bp_def fun_eq_iff)
  show "bc (relink s X G N) = bc s"
    by (cases G) (auto simp: relink_def Let_def bl_def bc_def fun_eq_iff)
  show "pr (relink s X G N) = pr s"
    by (cases G) (auto simp: relink_def Let_def bl_def pr_def fun_eq_iff)
  show "ncount (relink s X G N) = ncount s"
    by (cases G) (auto simp: relink_def Let_def)
  show "bRootNode (relink s X G N) = (case G of None \<Rightarrow> N | Some g \<Rightarrow> bRootNode s)"
    by (cases G) (auto simp: relink_def Let_def)
qed

text \<open>The subtree counts after a single rotation.\<close>

lemma counts_rotate_left:
  assumes g: "bgraph K root L R P" and c: "counts_ok K L R C Pr"
    and Z: "Z < K" and PZ: "P Z = Some X" and RX: "R X = Some Z"
  defines "L1 \<equiv> L(Z := Some X)" and "R1 \<equiv> R(X := L Z)"
  defines "C1 \<equiv> C(X := count_at L1 R1 C Pr X)"
  defines "C2 \<equiv> C1(Z := count_at L1 R1 C1 Pr Z)"
  shows "counts_ok K (relinkC L1 (P X) X Z) (relinkC R1 (P X) X Z) C2 Pr"
proof -
  from bgraph_parent[OF g Z PZ] have X: "X < K" "X \<noteq> Z" by auto
  note lf = bgraph_left[OF g] and rf = bgraph_right[OF g] and pf = bgraph_parent[OF g]
  obtain rank where rk: "ranked K P rank" using bgraph_rank[OF g] .
  from rankedD[OF rk Z PZ] have rXZ: "rank X < rank Z" .
  have cX: "C X = copt C (L X) + (if Pr X then 1 else 0) + C Z"
    using c X RX by (simp add: counts_ok_def count_at_def)
  have cZ: "C Z = copt C (L Z) + (if Pr Z then 1 else 0) + copt C (R Z)"
    using c Z by (simp add: counts_ok_def count_at_def)
  have LXn: "L X \<noteq> Some X" "L X \<noteq> Some Z" using lf[OF X(1), of X] rf(3)[OF X(1) RX] by auto
  have LZn: "L Z \<noteq> Some X" "L Z \<noteq> Some Z"
    using lf(2,4)[OF Z, of X] lf(4)[OF Z, of Z] rankedD[OF rk X(1), of Z] rXZ by auto
  have RZn: "R Z \<noteq> Some X" "R Z \<noteq> Some Z"
    using rf(2,4)[OF Z, of X] rf(4)[OF Z, of Z] rankedD[OF rk X(1), of Z] rXZ by auto
  have G: "G < K \<and> G \<noteq> X \<and> G \<noteq> Z \<and> (L G = Some X \<or> R G = Some X) \<and>
           (L G = Some X \<longrightarrow> R G \<noteq> Some X)"
    if "P X = Some G" for G
    using pf[OF X(1) that] rankedD[OF rk X(1) that] rXZ lf(3)[of G X] by auto
  have C1X: "C1 X = copt C (L X) + (if Pr X then 1 else 0) + copt C (L Z)"
    using X by (simp add: C1_def count_at_def L1_def R1_def)
  have C2X: "C2 X = copt C (L X) + (if Pr X then 1 else 0) + copt C (L Z)"
    using X C1X by (simp add: C2_def)
  have keep1: "copt C1 q = copt C q" if "q \<noteq> Some X" for q
    using that by (cases q) (auto simp: C1_def)
  have keep: "copt C2 q = copt C q" if "q \<noteq> Some X" "q \<noteq> Some Z" for q
    using that by (cases q) (auto simp: C2_def C1_def)
  have "C2 Z = C1 X + (if Pr Z then 1 else 0) + copt C1 (R Z)"
    using X by (simp add: C2_def count_at_def L1_def R1_def)
  with C1X keep1[OF RZn(1)] cX cZ have C2Z: "C2 Z = C X" by simp
  show ?thesis
    unfolding counts_ok_def
  proof (intro allI impI)
    fix a assume a: "a < K"
    let ?L = "relinkC L1 (P X) X Z" and ?R = "relinkC R1 (P X) X Z"
    consider (X) "a = X" | (Z) "a = Z" | (par) "P X = Some a" | (o) "a \<noteq> X" "a \<noteq> Z" "P X \<noteq> Some a"
      by blast
    then show "C2 a = count_at ?L ?R C2 Pr a"
    proof cases
      case X
      have "?L X = L X" "?R X = L Z"
        using G \<open>X \<noteq> Z\<close> by (cases "P X"; auto simp: relinkC_def L1_def R1_def)+
      with X C2X keep[OF LXn] keep[OF LZn] show ?thesis by (simp add: count_at_def)
    next
      case Z
      have "?L Z = Some X" "?R Z = R Z"
        using G \<open>X \<noteq> Z\<close> by (cases "P X"; auto simp: relinkC_def L1_def R1_def)+
      with Z C2Z C2X cX cZ keep[OF RZn] \<open>X \<noteq> Z\<close> show ?thesis
        by (simp add: count_at_def)
    next
      case par
      note Ga = G[OF par]
      have ca: "C a = copt C (L a) + (if Pr a then 1 else 0) + copt C (R a)"
        using c a by (simp add: counts_ok_def count_at_def)
      have C2a: "C2 a = C a" using Ga by (simp add: C2_def C1_def)
      show ?thesis
      proof (cases "L a = Some X")
        case True
        with Ga have Ra: "R a \<noteq> Some X" by simp
        have "R a \<noteq> Some Z" using rf(2)[OF a, of Z] PZ Ga by auto
        with True Ga par Ra have "?L a = Some Z" "?R a = R a"
          by (auto simp: relinkC_def L1_def R1_def)
        with C2a ca True C2Z keep[OF Ra \<open>R a \<noteq> Some Z\<close>] show ?thesis
          by (simp add: count_at_def)
      next
        case False
        with Ga have Ra: "R a = Some X" by simp
        have "L a \<noteq> Some Z" using lf(2)[OF a, of Z] PZ Ga by auto
        with False Ga par Ra have "?L a = L a" "?R a = Some Z"
          by (auto simp: relinkC_def L1_def R1_def)
        with C2a ca Ra C2Z keep[OF False \<open>L a \<noteq> Some Z\<close>] show ?thesis
          by (simp add: count_at_def)
      qed
    next
      case o
      have ca: "C a = copt C (L a) + (if Pr a then 1 else 0) + copt C (R a)"
        using c a by (simp add: counts_ok_def count_at_def)
      have C2a: "C2 a = C a" using o by (simp add: C2_def C1_def)
      have La: "L a \<noteq> Some X" "L a \<noteq> Some Z" using lf(2)[OF a] o PZ by auto
      have Ra: "R a \<noteq> Some X" "R a \<noteq> Some Z" using rf(2)[OF a] o PZ by auto
      have "?L a = L a" "?R a = R a"
        using o by (cases "P X"; auto simp: relinkC_def L1_def R1_def)+
      with C2a ca keep[OF La] keep[OF Ra] show ?thesis by (simp add: count_at_def)
    qed
  qed
qed


lemma view_rotate_Left_bc:
  "bc (fst (rotate_Left s X Z)) =
     (let L1 = (bl s)(Z := Some X); R1 = (br s)(X := bl s Z);
          C1 = (bc s)(X := count_at L1 R1 (bc s) (pr s) X)
      in C1(Z := count_at L1 R1 C1 (pr s) Z))"
  by (simp add: rotate_Left_def Let_def bl_def[of s Z, symmetric])

lemma view_rotate_Right_bc:
  "bc (fst (rotate_Right s X Z)) =
     (let L1 = (bl s)(X := br s Z); R1 = (br s)(Z := Some X);
          C1 = (bc s)(X := count_at L1 R1 (bc s) (pr s) X)
      in C1(Z := count_at L1 R1 C1 (pr s) Z))"
  by (simp add: rotate_Right_def Let_def br_def[of s Z, symmetric])

lemma view_double_bF [simp]:
  "bl (double_bF s X Z Y) = bl s"
  "br (double_bF s X Z Y) = br s"
  "bp (double_bF s X Z Y) = bp s"
  "bc (double_bF s X Z Y) = bc s"
  "pr (double_bF s X Z Y) = pr s"
  "ncount (double_bF s X Z Y) = ncount s"
  "bRootNode (double_bF s X Z Y) = bRootNode s"
  by (simp_all add: double_bF_def Let_def)

lemma view_rotate_RightLeft:
  assumes "rotate_RightLeft s X Z = Some (Inr (s', N))" "bl s Z = Some Y"
    "X \<noteq> Z" "X \<noteq> Y" "Y \<noteq> Z"
  shows "N = Y"
    "bl s' = (bl s)(Z := br s Y, Y := Some X)"
    "br s' = (br s)(Y := Some Z, X := bl s Y)"
    "bp s' = (updo ((updo (bp s) (br s Y) (Some Z))(Z := Some Y)) (bl s Y) (Some X))
              (X := Some Y)"
    "pr s' = pr s" "ncount s' = ncount s" "bRootNode s' = bRootNode s"
    "bc s' = (let L1 = (bl s)(Z := br s Y, Y := Some X); R1 = (br s)(Y := Some Z, X := bl s Y);
                 C1 = (bc s)(X := count_at L1 R1 (bc s) (pr s) X);
                 C2 = C1(Z := count_at L1 R1 C1 (pr s) Z)
             in C2(Y := count_at L1 R1 C2 (pr s) Y))"
proof -
  from assms(2) have Y: "bLeftChild (nodes s Z) = Some Y" by (simp add: bl_def)
  have r: "bRightChild (nodes s Y) = br s Y" by (simp add: br_def)
  have l: "bLeftChild (nodes s Y) = bl s Y" by (simp add: bl_def)
  have t2: "bLeftChild (nodes (upd (upd (set_bParent_opt
          (upd s Z (\<lambda>n. n\<lparr>bLeftChild := br s Y\<rparr>)) (br s Y) Z)
          Y (\<lambda>n. n\<lparr>bRightChild := Some Z\<rparr>)) Z (\<lambda>n. n\<lparr>bParent := Some Y\<rparr>)) Y) = bl s Y"
    using assms(3-5) by (cases "br s Y") (simp_all add: set_bParent_opt_def bl_def)
  from assms(1) Y have e: "s' = updateBCount (updateBCount (updateBCount (double_bF
      (upd (upd (set_bParent_opt (upd (upd (upd (set_bParent_opt
          (upd s Z (\<lambda>n. n\<lparr>bLeftChild := br s Y\<rparr>)) (br s Y) Z)
          Y (\<lambda>n. n\<lparr>bRightChild := Some Z\<rparr>)) Z (\<lambda>n. n\<lparr>bParent := Some Y\<rparr>))
          X (\<lambda>n. n\<lparr>bRightChild := bl s Y\<rparr>)) (bl s Y) X)
          Y (\<lambda>n. n\<lparr>bLeftChild := Some X\<rparr>)) X (\<lambda>n. n\<lparr>bParent := Some Y\<rparr>))
      X Z Y) X) Z) Y" and N: "N = Y"
    unfolding rotate_RightLeft_def by (auto simp add: ok_def Let_def r t2 simp del: upd_fields)
  show "N = Y" by (rule N)
  show "bl s' = (bl s)(Z := br s Y, Y := Some X)"
    unfolding e by simp
  show "br s' = (br s)(Y := Some Z, X := bl s Y)"
    unfolding e by simp
  show "bp s' = (updo ((updo (bp s) (br s Y) (Some Z))(Z := Some Y)) (bl s Y) (Some X))
              (X := Some Y)"
    unfolding e by simp
  show "pr s' = pr s" "ncount s' = ncount s" "bRootNode s' = bRootNode s"
    unfolding e by simp_all
  show "bc s' = (let L1 = (bl s)(Z := br s Y, Y := Some X); R1 = (br s)(Y := Some Z, X := bl s Y);
                 C1 = (bc s)(X := count_at L1 R1 (bc s) (pr s) X);
                 C2 = C1(Z := count_at L1 R1 C1 (pr s) Z)
             in C2(Y := count_at L1 R1 C2 (pr s) Y))"
    unfolding e by (simp add: Let_def)
qed


lemma relinkC_Some: "relinkC C (Some g) X N = (if C g = Some X then C(g := Some N) else C)"
  by (simp add: relinkC_def)

lemma copt_upd: "copt (C(a := v)) q = (if q = Some a then v else copt C q)"
  by (cases q) auto

lemma count_at_swap: "count_at R L = count_at L R"
  by (simp add: fun_eq_iff count_at_def)

lemma counts_ok_swap: "counts_ok K R L C Pr = counts_ok K L R C Pr"
  by (simp add: counts_ok_def count_at_swap[of R L])

text \<open>The counts after a single rotation, together with the tree.\<close>

definition recount ::
  "(nat \<Rightarrow> nat option) \<Rightarrow> (nat \<Rightarrow> nat option) \<Rightarrow> (nat \<Rightarrow> bool) \<Rightarrow> nat \<Rightarrow> (nat \<Rightarrow> int) \<Rightarrow> nat \<Rightarrow> int" where
  "recount L R Pr a C = C(a := count_at L R C Pr a)"

lemma recount_swap: "recount R L = recount L R"
  by (simp add: fun_eq_iff recount_def count_at_swap[of R L])

lemma rot_left:
  assumes bt: "btree K root L R P t" and c: "counts_ok K L R C Pr"
    and Z: "Z < K" and PZ: "P Z = Some X" and RX: "R X = Some Z"
  shows "\<exists>t'. btree K (case P X of None \<Rightarrow> Z | Some _ \<Rightarrow> root)
           (relinkC (L(Z := Some X)) (P X) X Z) (relinkC (R(X := L Z)) (P X) X Z)
           ((updo P (L Z) (Some X))(X := Some Z, Z := P X)) t' \<and>
         inorder t' = inorder t \<and>
         counts_ok K (relinkC (L(Z := Some X)) (P X) X Z) (relinkC (R(X := L Z)) (P X) X Z)
           (recount (L(Z := Some X)) (R(X := L Z)) Pr Z
              (recount (L(Z := Some X)) (R(X := L Z)) Pr X C)) Pr"
  using btree_rotate_left[OF bt Z PZ RX] counts_rotate_left[OF btree_bgraph[OF bt] c Z PZ RX]
  by (simp add: recount_def)

lemma rot_right:
  assumes bt: "btree K root L R P t" and c: "counts_ok K L R C Pr"
    and Z: "Z < K" and PZ: "P Z = Some X" and LX: "L X = Some Z"
  shows "\<exists>t'. btree K (case P X of None \<Rightarrow> Z | Some _ \<Rightarrow> root)
           (relinkC (L(X := R Z)) (P X) X Z) (relinkC (R(Z := Some X)) (P X) X Z)
           ((updo P (R Z) (Some X))(X := Some Z, Z := P X)) t' \<and>
         inorder t' = inorder t \<and>
         counts_ok K (relinkC (L(X := R Z)) (P X) X Z) (relinkC (R(Z := Some X)) (P X) X Z)
           (recount (L(X := R Z)) (R(Z := Some X)) Pr Z
              (recount (L(X := R Z)) (R(Z := Some X)) Pr X C)) Pr"
proof -
  from bt have m: "btree K root R L P (mirror t)" by (simp add: btree_mirror)
  from c have c': "counts_ok K R L C Pr" by (simp add: counts_ok_swap)
  from counts_rotate_left[OF btree_bgraph[OF m] c' Z PZ LX]
  have "counts_ok K (relinkC (L(X := R Z)) (P X) X Z) (relinkC (R(Z := Some X)) (P X) X Z)
           (recount (L(X := R Z)) (R(Z := Some X)) Pr Z
              (recount (L(X := R Z)) (R(Z := Some X)) Pr X C)) Pr"
    by (simp add: recount_def counts_ok_swap[of K "relinkC (R(Z := Some X)) (P X) X Z"]
        count_at_swap[of "R(Z := Some X)"])
  with btree_rotate_right[OF bt Z PZ LX] show ?thesis by blast
qed

text \<open>A double rotation is a rotation below \<open>X\<close> followed by a rotation at \<open>X\<close>.\<close>

lemma rot_right_left:
  assumes bt: "btree K root L R P t" and c: "counts_ok K L R C Pr"
    and Y: "Y < K" and PY: "P Y = Some Z" and LZ: "L Z = Some Y"
    and PZ: "P Z = Some X" and RX: "R X = Some Z"
  defines "L2 \<equiv> L(Z := R Y, Y := Some X)" and "R2 \<equiv> R(Y := Some Z, X := L Y)"
  shows "\<exists>t'. btree K (case P X of None \<Rightarrow> Y | Some _ \<Rightarrow> root)
           (relinkC L2 (P X) X Y) (relinkC R2 (P X) X Y)
           ((updo ((updo P (R Y) (Some Z))(Z := Some Y)) (L Y) (Some X))(X := Some Y, Y := P X)) t' \<and>
         inorder t' = inorder t \<and>
         counts_ok K (relinkC L2 (P X) X Y) (relinkC R2 (P X) X Y)
           (recount L2 R2 Pr Y (recount L2 R2 Pr Z (recount L2 R2 Pr X C))) Pr"
proof -
  note g = btree_bgraph[OF bt]
  from bgraph_parent[OF g Y PY] have Z: "Z < K" "Z \<noteq> Y" by auto
  from bgraph_parent[OF g Z(1) PZ] have X: "X < K" "X \<noteq> Z" by auto
  obtain rank where rk: "ranked K P rank" using bgraph_rank[OF g] .
  from rankedD[OF rk Y PY] rankedD[OF rk Z(1) PZ] have XY: "X \<noteq> Y" by auto
  from bgraph_right(3)[OF g X(1) RX] have LX: "L X \<noteq> Some Z" .
  have LXn: "L X \<noteq> Some X" "L X \<noteq> Some Y"
    using bgraph_left(2,4)[OF g X(1), of X] bgraph_left(2)[OF g X(1), of Y] PY Z X by auto
  have RYn: "R Y \<noteq> Some X" "R Y \<noteq> Some Z" "R Y \<noteq> Some Y"
    using bgraph_right(2,4)[OF g Y, of X] bgraph_right(2)[OF g Y, of Z] bgraph_right(4)[OF g Y, of Y]
      PZ rankedD[OF rk X(1), of Y] rankedD[OF rk Y PY] rankedD[OF rk Z(1) PZ]
      rankedD[OF rk Z(1), of Y]
    by auto
  have LYn: "L Y \<noteq> Some X" "L Y \<noteq> Some Z" "L Y \<noteq> Some Y"
    using bgraph_left(2,4)[OF g Y, of X] bgraph_left(2)[OF g Y, of Z] bgraph_left(4)[OF g Y, of Y]
      rankedD[OF rk X(1), of Y] rankedD[OF rk Y PY] rankedD[OF rk Z(1) PZ]
      rankedD[OF rk Z(1), of Y]
    by auto
  have RZn: "R Z \<noteq> Some X" "R Z \<noteq> Some Z" "R Z \<noteq> Some Y"
    using bgraph_right(2,4)[OF g Z(1), of X] bgraph_right(4)[OF g Z(1), of Z]
      bgraph_right(3)[OF g Z(1), of Y] LZ
      rankedD[OF rk X(1), of Z] rankedD[OF rk Z(1) PZ]
    by auto
  text \<open>First a right rotation at \<open>Z\<close>, relinked below \<open>X\<close>.\<close>
  let ?Ca = "recount (L(Z := R Y)) (R(Y := Some Z)) Pr Y
               (recount (L(Z := R Y)) (R(Y := Some Z)) Pr Z C)"
  from rot_right[OF bt c Y PY LZ] obtain t1 where
    b1: "btree K (case P Z of None \<Rightarrow> Y | Some _ \<Rightarrow> root)
           (relinkC (L(Z := R Y)) (P Z) Z Y) (relinkC (R(Y := Some Z)) (P Z) Z Y)
           ((updo P (R Y) (Some Z))(Z := Some Y, Y := P Z)) t1"
    and i1: "inorder t1 = inorder t"
    and c1: "counts_ok K (relinkC (L(Z := R Y)) (P Z) Z Y) (relinkC (R(Y := Some Z)) (P Z) Z Y)
               ?Ca Pr"
    by blast
  have e1: "relinkC (L(Z := R Y)) (Some X) Z Y = L(Z := R Y)"
    "relinkC (R(Y := Some Z)) (Some X) Z Y = R(Y := Some Z, X := Some Y)"
    using X XY Z LX RX by (auto simp: relinkC_Some)
  from b1 have b1': "btree K root (L(Z := R Y)) (R(Y := Some Z, X := Some Y))
           ((updo P (R Y) (Some Z))(Z := Some Y, Y := Some X)) t1"
    unfolding PZ e1 by simp
  from c1 have c1': "counts_ok K (L(Z := R Y)) (R(Y := Some Z, X := Some Y)) ?Ca Pr"
    unfolding PZ e1 by simp
  text \<open>Then a left rotation at \<open>X\<close>.\<close>
  have PX1: "((updo P (R Y) (Some Z))(Z := Some Y, Y := Some X)) X = P X"
    using X XY RYn by (cases "R Y") auto
  from rot_left[OF b1' c1' Y, of X] XY
  obtain t2 where
    b2: "btree K (case ((updo P (R Y) (Some Z))(Z := Some Y, Y := Some X)) X of
                   None \<Rightarrow> Y | Some _ \<Rightarrow> root)
           (relinkC ((L(Z := R Y))(Y := Some X))
              (((updo P (R Y) (Some Z))(Z := Some Y, Y := Some X)) X) X Y)
           (relinkC ((R(Y := Some Z, X := Some Y))(X := (L(Z := R Y)) Y))
              (((updo P (R Y) (Some Z))(Z := Some Y, Y := Some X)) X) X Y)
           ((updo ((updo P (R Y) (Some Z))(Z := Some Y, Y := Some X)) ((L(Z := R Y)) Y) (Some X))
              (X := Some Y, Y := ((updo P (R Y) (Some Z))(Z := Some Y, Y := Some X)) X)) t2"
    and i2: "inorder t2 = inorder t1"
    and c2: "counts_ok K
           (relinkC ((L(Z := R Y))(Y := Some X))
              (((updo P (R Y) (Some Z))(Z := Some Y, Y := Some X)) X) X Y)
           (relinkC ((R(Y := Some Z, X := Some Y))(X := (L(Z := R Y)) Y))
              (((updo P (R Y) (Some Z))(Z := Some Y, Y := Some X)) X) X Y)
           (recount ((L(Z := R Y))(Y := Some X)) ((R(Y := Some Z, X := Some Y))(X := (L(Z := R Y)) Y))
              Pr Y
              (recount ((L(Z := R Y))(Y := Some X))
                 ((R(Y := Some Z, X := Some Y))(X := (L(Z := R Y)) Y)) Pr X ?Ca)) Pr"
    by auto
  have eP: "(updo ((updo P (R Y) (Some Z))(Z := Some Y, Y := Some X)) ((L(Z := R Y)) Y) (Some X))
              (X := Some Y, Y := P X) =
            (updo ((updo P (R Y) (Some Z))(Z := Some Y)) (L Y) (Some X))(X := Some Y, Y := P X)"
    using Z LYn by (cases "L Y"; cases "R Y") (auto simp: fun_eq_iff)
  have eR: "(R(Y := Some Z, X := Some Y))(X := (L(Z := R Y)) Y) = R2"
    using Z by (auto simp: fun_eq_iff R2_def)
  have eL: "(L(Z := R Y))(Y := Some X) = L2" by (simp add: L2_def)
  have eC: "recount L2 R2 Pr Y (recount L2 R2 Pr X ?Ca) =
            recount L2 R2 Pr Y (recount L2 R2 Pr Z (recount L2 R2 Pr X C))"
    using X XY Z LXn LX LYn RYn RZn
    by (auto simp: fun_eq_iff recount_def count_at_def copt_upd L2_def R2_def)
  from b2 have "btree K (case P X of None \<Rightarrow> Y | Some _ \<Rightarrow> root)
           (relinkC L2 (P X) X Y) (relinkC R2 (P X) X Y)
           ((updo ((updo P (R Y) (Some Z))(Z := Some Y)) (L Y) (Some X))(X := Some Y, Y := P X)) t2"
    unfolding PX1 eP eR eL .
  moreover from c2 have "counts_ok K (relinkC L2 (P X) X Y) (relinkC R2 (P X) X Y)
           (recount L2 R2 Pr Y (recount L2 R2 Pr Z (recount L2 R2 Pr X C))) Pr"
    unfolding PX1 eR eL eC .
  ultimately show ?thesis using i1 i2 by auto
qed


lemma rot_left_right:
  assumes bt: "btree K root L R P t" and c: "counts_ok K L R C Pr"
    and Y: "Y < K" and PY: "P Y = Some Z" and RZ: "R Z = Some Y"
    and PZ: "P Z = Some X" and LX: "L X = Some Z"
  defines "L2 \<equiv> L(Y := Some Z, X := R Y)" and "R2 \<equiv> R(Z := L Y, Y := Some X)"
  shows "\<exists>t'. btree K (case P X of None \<Rightarrow> Y | Some _ \<Rightarrow> root)
           (relinkC L2 (P X) X Y) (relinkC R2 (P X) X Y)
           ((updo ((updo P (L Y) (Some Z))(Z := Some Y)) (R Y) (Some X))(X := Some Y, Y := P X)) t' \<and>
         inorder t' = inorder t \<and>
         counts_ok K (relinkC L2 (P X) X Y) (relinkC R2 (P X) X Y)
           (recount L2 R2 Pr Y (recount L2 R2 Pr Z (recount L2 R2 Pr X C))) Pr"
proof -
  from bt have m: "btree K root R L P (mirror t)" by (simp add: btree_mirror)
  from c have c': "counts_ok K R L C Pr" by (simp add: counts_ok_swap)
  from rot_right_left[OF m c' Y PY RZ PZ LX] obtain t' where
    b: "btree K (case P X of None \<Rightarrow> Y | Some _ \<Rightarrow> root)
           (relinkC R2 (P X) X Y) (relinkC L2 (P X) X Y)
           ((updo ((updo P (L Y) (Some Z))(Z := Some Y)) (R Y) (Some X))(X := Some Y, Y := P X)) t'"
    and io: "inorder t' = inorder (mirror t)"
    and c2: "counts_ok K (relinkC R2 (P X) X Y) (relinkC L2 (P X) X Y)
           (recount R2 L2 Pr Y (recount R2 L2 Pr Z (recount R2 L2 Pr X C))) Pr"
    unfolding L2_def R2_def by blast
  have mm: "mirror (mirror u) = u" for u by (induction u) auto
  from b have "btree K (case P X of None \<Rightarrow> Y | Some _ \<Rightarrow> root)
           (relinkC L2 (P X) X Y) (relinkC R2 (P X) X Y)
           ((updo ((updo P (L Y) (Some Z))(Z := Some Y)) (R Y) (Some X))(X := Some Y, Y := P X))
           (mirror t')"
    using btree_mirror[of K _ "relinkC R2 (P X) X Y" "relinkC L2 (P X) X Y" _ "mirror t'"]
    by (simp add: mm)
  moreover have "inorder (mirror t') = inorder t" using io by simp
  moreover from c2 have "counts_ok K (relinkC L2 (P X) X Y) (relinkC R2 (P X) X Y)
           (recount L2 R2 Pr Y (recount L2 R2 Pr Z (recount L2 R2 Pr X C))) Pr"
    by (simp add: counts_ok_swap[of K "relinkC R2 (P X) X Y"] recount_swap[of R2 L2])
  ultimately show ?thesis by blast
qed

lemma view_rotate_LeftRight:
  assumes "rotate_LeftRight s X Z = Some (Inr (s', N))" "br s Z = Some Y"
    "X \<noteq> Z" "X \<noteq> Y" "Y \<noteq> Z"
  shows "N = Y"
    "bl s' = (bl s)(Y := Some Z, X := br s Y)"
    "br s' = (br s)(Z := bl s Y, Y := Some X)"
    "bp s' = (updo ((updo (bp s) (bl s Y) (Some Z))(Z := Some Y)) (br s Y) (Some X))
              (X := Some Y)"
    "pr s' = pr s" "ncount s' = ncount s" "bRootNode s' = bRootNode s"
    "bc s' = (let L1 = (bl s)(Y := Some Z, X := br s Y); R1 = (br s)(Z := bl s Y, Y := Some X)
             in recount L1 R1 (pr s) Y (recount L1 R1 (pr s) Z (recount L1 R1 (pr s) X (bc s))))"
proof -
  from assms(2) have Y: "bRightChild (nodes s Z) = Some Y" by (simp add: br_def)
  have r: "bRightChild (nodes s Y) = br s Y" by (simp add: br_def)
  have l: "bLeftChild (nodes s Y) = bl s Y" by (simp add: bl_def)
  have t2: "bRightChild (nodes (upd (upd (set_bParent_opt
          (upd s Z (\<lambda>n. n\<lparr>bRightChild := bl s Y\<rparr>)) (bl s Y) Z)
          Y (\<lambda>n. n\<lparr>bLeftChild := Some Z\<rparr>)) Z (\<lambda>n. n\<lparr>bParent := Some Y\<rparr>)) Y) = br s Y"
    using assms(3-5) by (cases "bl s Y") (simp_all add: set_bParent_opt_def br_def)
  from assms(1) Y have e: "s' = updateBCount (updateBCount (updateBCount (double_bF
      (upd (upd (set_bParent_opt (upd (upd (upd (set_bParent_opt
          (upd s Z (\<lambda>n. n\<lparr>bRightChild := bl s Y\<rparr>)) (bl s Y) Z)
          Y (\<lambda>n. n\<lparr>bLeftChild := Some Z\<rparr>)) Z (\<lambda>n. n\<lparr>bParent := Some Y\<rparr>))
          X (\<lambda>n. n\<lparr>bLeftChild := br s Y\<rparr>)) (br s Y) X)
          Y (\<lambda>n. n\<lparr>bRightChild := Some X\<rparr>)) X (\<lambda>n. n\<lparr>bParent := Some Y\<rparr>))
      X Z Y) X) Z) Y" and N: "N = Y"
    unfolding rotate_LeftRight_def by (auto simp add: ok_def Let_def l t2 simp del: upd_fields)
  show "N = Y" by (rule N)
  show "bl s' = (bl s)(Y := Some Z, X := br s Y)"
    unfolding e by simp
  show "br s' = (br s)(Z := bl s Y, Y := Some X)"
    unfolding e by simp
  show "bp s' = (updo ((updo (bp s) (bl s Y) (Some Z))(Z := Some Y)) (br s Y) (Some X))
              (X := Some Y)"
    unfolding e by simp
  show "pr s' = pr s" "ncount s' = ncount s" "bRootNode s' = bRootNode s"
    unfolding e by simp_all
  show "bc s' = (let L1 = (bl s)(Y := Some Z, X := br s Y); R1 = (br s)(Z := bl s Y, Y := Some X)
             in recount L1 R1 (pr s) Y (recount L1 R1 (pr s) Z (recount L1 R1 (pr s) X (bc s))))"
    unfolding e by (simp add: Let_def recount_def)
qed

lemma view_rotate_RightLeft_bc:
  assumes "rotate_RightLeft s X Z = Some (Inr (s', N))" "bl s Z = Some Y"
    "X \<noteq> Z" "X \<noteq> Y" "Y \<noteq> Z"
  shows "bc s' = (let L1 = (bl s)(Z := br s Y, Y := Some X); R1 = (br s)(Y := Some Z, X := bl s Y)
             in recount L1 R1 (pr s) Y (recount L1 R1 (pr s) Z (recount L1 R1 (pr s) X (bc s))))"
  using view_rotate_RightLeft(8)[OF assms] by (simp add: Let_def recount_def)

lemma view_rotate_Left_rc:
  "bc (fst (rotate_Left s X Z)) =
     recount ((bl s)(Z := Some X)) ((br s)(X := bl s Z)) (pr s) Z
       (recount ((bl s)(Z := Some X)) ((br s)(X := bl s Z)) (pr s) X (bc s))"
  by (simp add: view_rotate_Left_bc Let_def recount_def)

lemma view_rotate_Right_rc:
  "bc (fst (rotate_Right s X Z)) =
     recount ((bl s)(X := br s Z)) ((br s)(Z := Some X)) (pr s) Z
       (recount ((bl s)(X := br s Z)) ((br s)(Z := Some X)) (pr s) X (bc s))"
  by (simp add: view_rotate_Right_bc Let_def recount_def)


section \<open>The fields that the balanced index does not touch\<close>

definition rest ::
  "state \<Rightarrow> (nat \<Rightarrow> string \<times> nat option \<times> bool \<times> string \<times> nat list \<times> nat list) \<times>
     (string \<Rightarrow> nat option) \<times> nat \<times> salm \<times> salm" where
  "rest s =
     ((\<lambda>a. (id_n (nodes s a), parent (nodes s a), isLeftChild (nodes s a), value_n (nodes s a),
            leftChildren (nodes s a), rightChildren (nodes s a))),
      nodesByID s, rootNode s, leftSALM s, rightSALM s)"

lemma rest_upd [simp]:
  "rest (upd s a (\<lambda>n. n\<lparr>bLeftChild := v\<rparr>)) = rest s"
  "rest (upd s a (\<lambda>n. n\<lparr>bRightChild := v\<rparr>)) = rest s"
  "rest (upd s a (\<lambda>n. n\<lparr>bParent := v\<rparr>)) = rest s"
  "rest (upd s a (\<lambda>n. n\<lparr>bF := w\<rparr>)) = rest s"
  "rest (upd s a (\<lambda>n. n\<lparr>bCount := u n\<rparr>)) = rest s"
  "rest (upd s a (\<lambda>n. n\<lparr>isPresent := b\<rparr>)) = rest s"
  "rest (s\<lparr>bRootNode := r\<rparr>) = rest s"
  by (auto simp: rest_def fun_eq_iff)

lemma rest_set_bParent_opt [simp]: "rest (set_bParent_opt s t X) = rest s"
  by (cases t) (simp_all add: set_bParent_opt_def)

lemma rest_updateBCount [simp]: "rest (updateBCount s a) = rest s"
  by (simp add: updateBCount_def)

lemma rest_double_bF [simp]: "rest (double_bF s X Z Y) = rest s"
  by (simp add: double_bF_def Let_def)

lemma rest_rotate_Left [simp]: "rest (fst (rotate_Left s X Z)) = rest s"
  by (simp add: rotate_Left_def Let_def)

lemma rest_rotate_Right [simp]: "rest (fst (rotate_Right s X Z)) = rest s"
  by (simp add: rotate_Right_def Let_def)

lemma rest_rotate_RightLeft:
  "rotate_RightLeft s X Z = Some (Inr (s', N)) \<Longrightarrow> rest s' = rest s"
  by (auto simp: rotate_RightLeft_def Let_def ok_def err_def split: option.splits)

lemma rest_rotate_LeftRight:
  "rotate_LeftRight s X Z = Some (Inr (s', N)) \<Longrightarrow> rest s' = rest s"
  by (auto simp: rotate_LeftRight_def Let_def ok_def err_def split: option.splits)

lemma rest_relink [simp]: "rest (relink s X G N) = rest s"
  by (cases G) (simp_all add: relink_def Let_def)

section \<open>Rotations of the balanced index of a state\<close>

lemma relink_views:
  assumes g: "bgraph K root L R P" and X: "X < K"
    and same: "\<And>g. P X = Some g \<Longrightarrow> bl s1 g = L g \<and> br s1 g = R g"
  shows "bl (relink s1 X (P X) N) = relinkC (bl s1) (P X) X N"
    "br (relink s1 X (P X) N) = relinkC (br s1) (P X) X N"
proof -
  show "bl (relink s1 X (P X) N) = relinkC (bl s1) (P X) X N"
    by (simp add: view_relink relinkC_def)
  show "br (relink s1 X (P X) N) = relinkC (br s1) (P X) X N"
  proof (cases "P X")
    case None
    then show ?thesis by (simp add: view_relink relinkC_def)
  next
    case (Some g')
    from bgraph_parent[OF g X Some] have g': "L g' = Some X \<or> R g' = Some X" "g' < K" by auto
    from bgraph_left(3)[OF g g'(2), of X] g'(1)
    have "L g' = Some X \<longleftrightarrow> R g' \<noteq> Some X" by auto
    with same[OF Some] Some show ?thesis by (auto simp: view_relink relinkC_def)
  qed
qed

definition binv :: "state \<Rightarrow> tr \<Rightarrow> bool" where
  "binv s t \<longleftrightarrow> bt s t \<and> cwf s"

lemma binv_rotate_Left:
  assumes i: "binv s t" and Z: "Z < ncount s" and PZ: "bp s Z = Some X" and RX: "br s X = Some Z"
  shows "\<exists>t'. binv (relink (fst (rotate_Left s X Z)) X (bp s X) Z) t' \<and> inorder t' = inorder t"
proof -
  from i have b: "btree (ncount s) (bRootNode s) (bl s) (br s) (bp s) t"
    and c: "counts_ok (ncount s) (bl s) (br s) (bc s) (pr s)"
    by (simp_all add: binv_def bt_def cwf_def)
  note g = btree_bgraph[OF b]
  from bgraph_parent[OF g Z PZ] have X: "X < ncount s" "X \<noteq> Z" by auto
  let ?s1 = "fst (rotate_Left s X Z)"
  have same: "bl ?s1 g' = bl s g' \<and> br ?s1 g' = br s g'" if "bp s X = Some g'" for g'
  proof -
    obtain rank where rk: "ranked (ncount s) (bp s) rank" using bgraph_rank[OF g] .
    from rankedD[OF rk X(1) that] rankedD[OF rk Z PZ] have "g' \<noteq> X" "g' \<noteq> Z" by auto
    then show ?thesis by (simp add: view_rotate_Left)
  qed
  note rv = relink_views[OF g X(1) same, of Z]
  from rot_left[OF b c Z PZ RX] show ?thesis
    by (auto simp add: binv_def bt_def cwf_def rv view_relink(3-7) view_rotate_Left view_rotate_Left_rc
        cong: option.case_cong)
qed

lemma binv_rotate_Right:
  assumes i: "binv s t" and Z: "Z < ncount s" and PZ: "bp s Z = Some X" and LX: "bl s X = Some Z"
  shows "\<exists>t'. binv (relink (fst (rotate_Right s X Z)) X (bp s X) Z) t' \<and> inorder t' = inorder t"
proof -
  from i have b: "btree (ncount s) (bRootNode s) (bl s) (br s) (bp s) t"
    and c: "counts_ok (ncount s) (bl s) (br s) (bc s) (pr s)"
    by (simp_all add: binv_def bt_def cwf_def)
  note g = btree_bgraph[OF b]
  from bgraph_parent[OF g Z PZ] have X: "X < ncount s" "X \<noteq> Z" by auto
  let ?s1 = "fst (rotate_Right s X Z)"
  have same: "bl ?s1 g' = bl s g' \<and> br ?s1 g' = br s g'" if "bp s X = Some g'" for g'
  proof -
    obtain rank where rk: "ranked (ncount s) (bp s) rank" using bgraph_rank[OF g] .
    from rankedD[OF rk X(1) that] rankedD[OF rk Z PZ] have "g' \<noteq> X" "g' \<noteq> Z" by auto
    then show ?thesis by (simp add: view_rotate_Right)
  qed
  note rv = relink_views[OF g X(1) same, of Z]
  from rot_right[OF b c Z PZ LX] show ?thesis
    by (auto simp add: binv_def bt_def cwf_def rv view_relink(3-7) view_rotate_Right view_rotate_Right_rc
        cong: option.case_cong)
qed

lemma binv_rotate_RightLeft:
  assumes i: "binv s t" and Z: "Z < ncount s" and PZ: "bp s Z = Some X" and RX: "br s X = Some Z"
    and r: "rotate_RightLeft s X Z = Some (Inr (s1, N))"
  shows "\<exists>t'. binv (relink s1 X (bp s X) N) t' \<and> inorder t' = inorder t"
proof -
  from i have b: "btree (ncount s) (bRootNode s) (bl s) (br s) (bp s) t"
    and c: "counts_ok (ncount s) (bl s) (br s) (bc s) (pr s)"
    by (simp_all add: binv_def bt_def cwf_def)
  note g = btree_bgraph[OF b]
  from bgraph_parent[OF g Z PZ] have X: "X < ncount s" "X \<noteq> Z" by auto
  from r obtain Y where LZ: "bl s Z = Some Y"
    by (auto simp: rotate_RightLeft_def bl_def err_def split: option.splits)
  from bgraph_left[OF g Z LZ] have Y: "Y < ncount s" "bp s Y = Some Z" "Y \<noteq> Z" by auto
  obtain rank where rk: "ranked (ncount s) (bp s) rank" using bgraph_rank[OF g] .
  from rankedD[OF rk Y(1,2)] rankedD[OF rk Z PZ] have XY: "X \<noteq> Y" by auto
  note v = view_rotate_RightLeft[OF r LZ X(2) XY Y(3)]
  note vc = view_rotate_RightLeft_bc[OF r LZ X(2) XY Y(3)]
  have same: "bl s1 g' = bl s g' \<and> br s1 g' = br s g'" if "bp s X = Some g'" for g'
  proof -
    from rankedD[OF rk X(1) that] rankedD[OF rk Z PZ] rankedD[OF rk Y(1,2)]
    have "g' \<noteq> X" "g' \<noteq> Z" "g' \<noteq> Y" by auto
    then show ?thesis by (simp add: v)
  qed
  note rv = relink_views[OF g X(1) same, of Y]
  from rot_right_left[OF b c Y(1,2) LZ PZ RX] show ?thesis
    by (auto simp add: binv_def bt_def cwf_def rv view_relink(3-7) v(1-7) vc Let_def cong: option.case_cong)
qed

lemma binv_rotate_LeftRight:
  assumes i: "binv s t" and Z: "Z < ncount s" and PZ: "bp s Z = Some X" and LX: "bl s X = Some Z"
    and r: "rotate_LeftRight s X Z = Some (Inr (s1, N))"
  shows "\<exists>t'. binv (relink s1 X (bp s X) N) t' \<and> inorder t' = inorder t"
proof -
  from i have b: "btree (ncount s) (bRootNode s) (bl s) (br s) (bp s) t"
    and c: "counts_ok (ncount s) (bl s) (br s) (bc s) (pr s)"
    by (simp_all add: binv_def bt_def cwf_def)
  note g = btree_bgraph[OF b]
  from bgraph_parent[OF g Z PZ] have X: "X < ncount s" "X \<noteq> Z" by auto
  from r obtain Y where RZ: "br s Z = Some Y"
    by (auto simp: rotate_LeftRight_def br_def err_def split: option.splits)
  from bgraph_right[OF g Z RZ] have Y: "Y < ncount s" "bp s Y = Some Z" "Y \<noteq> Z" by auto
  obtain rank where rk: "ranked (ncount s) (bp s) rank" using bgraph_rank[OF g] .
  from rankedD[OF rk Y(1,2)] rankedD[OF rk Z PZ] have XY: "X \<noteq> Y" by auto
  note v = view_rotate_LeftRight[OF r RZ X(2) XY Y(3)]
  have same: "bl s1 g' = bl s g' \<and> br s1 g' = br s g'" if "bp s X = Some g'" for g'
  proof -
    from rankedD[OF rk X(1) that] rankedD[OF rk Z PZ] rankedD[OF rk Y(1,2)]
    have "g' \<noteq> X" "g' \<noteq> Z" "g' \<noteq> Y" by auto
    then show ?thesis by (simp add: v)
  qed
  note rv = relink_views[OF g X(1) same, of Y]
  from rot_left_right[OF b c Y(1,2) RZ PZ LX] show ?thesis
    by (auto simp add: binv_def bt_def cwf_def rv view_relink(3-7) v Let_def cong: option.case_cong)
qed


definition same_rest :: "state \<Rightarrow> state \<Rightarrow> bool" where
  "same_rest s s' \<longleftrightarrow> ncount s' = ncount s \<and> pr s' = pr s \<and> rest s' = rest s"

lemma same_rest_refl [simp]: "same_rest s s"
  by (simp add: same_rest_def)

lemma same_rest_trans: "same_rest s s1 \<Longrightarrow> same_rest s1 s2 \<Longrightarrow> same_rest s s2"
  by (simp add: same_rest_def)

lemma binv_upd_bF [simp]: "binv (upd s X (\<lambda>n. n\<lparr>bF := v\<rparr>)) t = binv s t"
  by (simp add: binv_def bt_def cwf_def)

lemma same_rest_upd_bF [simp]: "same_rest s (upd s X (\<lambda>n. n\<lparr>bF := v\<rparr>))"
  by (simp add: same_rest_def)

lemma same_rest_relink_Left: "same_rest s (relink (fst (rotate_Left s X Z)) X G N)"
  by (simp add: same_rest_def view_relink view_rotate_Left)

lemma same_rest_relink_Right: "same_rest s (relink (fst (rotate_Right s X Z)) X G N)"
  by (simp add: same_rest_def view_relink view_rotate_Right)

lemma pr_ncount_rotate_RightLeft:
  "rotate_RightLeft s X Z = Some (Inr (s', N)) \<Longrightarrow> pr s' = pr s \<and> ncount s' = ncount s"
  by (auto simp: rotate_RightLeft_def Let_def ok_def err_def double_bF_def split: option.splits)

lemma pr_ncount_rotate_LeftRight:
  "rotate_LeftRight s X Z = Some (Inr (s', N)) \<Longrightarrow> pr s' = pr s \<and> ncount s' = ncount s"
  by (auto simp: rotate_LeftRight_def Let_def ok_def err_def double_bF_def split: option.splits)

lemma same_rest_relink_RightLeft:
  "rotate_RightLeft s X Z = Some (Inr (s1, N)) \<Longrightarrow> same_rest s (relink s1 X G N')"
  using pr_ncount_rotate_RightLeft[of s X Z s1 N] rest_rotate_RightLeft[of s X Z s1 N]
  by (simp add: same_rest_def view_relink)

lemma same_rest_relink_LeftRight:
  "rotate_LeftRight s X Z = Some (Inr (s1, N)) \<Longrightarrow> same_rest s (relink s1 X G N')"
  using pr_ncount_rotate_LeftRight[of s X Z s1 N] rest_rotate_LeftRight[of s X Z s1 N]
  by (simp add: same_rest_def view_relink)

lemma rebalance_binv:
  assumes "rebalance s Z = Some (Inr s')" "binv s t" "Z < ncount s"
  shows "(\<exists>t'. binv s' t' \<and> inorder t' = inorder t) \<and> same_rest s s'"
proof -
  have "\<forall>s'. r = Inr s' \<longrightarrow> binv s t \<longrightarrow> Z < ncount s \<longrightarrow>
          (\<exists>t'. binv s' t' \<and> inorder t' = inorder t) \<and> same_rest s s'"
    if h: "rebalance s Z = Some r" for s Z r
  proof (rule rebalance.raw_induct[where P = "\<lambda>s Z r. \<forall>s'. r = Inr s' \<longrightarrow> binv s t \<longrightarrow>
          Z < ncount s \<longrightarrow> (\<exists>t'. binv s' t' \<and> inorder t' = inorder t) \<and> same_rest s s'",
        OF _ h], goal_cases)
    case (1 f s Z r)
    note IH = 1(1) and eq = 1(2)
    show ?case
    proof (intro impI allI)
      fix s' assume r: "r = Inr s'" and i: "binv s t" and Z: "Z < ncount s"
      from i have g: "bgraph (ncount s) (bRootNode s) (bl s) (br s) (bp s)"
        by (auto simp: binv_def bt_def intro: btree_bgraph)
      show "(\<exists>t'. binv s' t' \<and> inorder t' = inorder t) \<and> same_rest s s'"
      proof (cases "bp s Z")
        case None
        with eq r i show ?thesis by (auto simp: ok_def bp_def)
      next
        case (Some X)
        note PZ = Some
        from bgraph_parent[OF g Z PZ] have X: "X < ncount s" "bl s X = Some Z \<or> br s X = Some Z"
          by auto
        have bpZ: "bParent (nodes s Z) = Some X" using PZ by (simp add: bp_def)
        show ?thesis
        proof (cases "br s X = Some Z")
          case True
          then have RX: "bRightChild (nodes s X) = Some Z" by (simp add: br_def)
          consider (rot) "bF (nodes s X) > 0" | (stop) "bF (nodes s X) < 0" | (up) "bF (nodes s X) = 0"
            by linarith
          then show ?thesis
          proof cases
            case rot
            show ?thesis
            proof (cases "bF (nodes s Z) < 0")
              case True
              with eq r bpZ RX rot obtain s1 N where
                rr: "rotate_RightLeft s X Z = Some (Inr (s1, N))"
                and s': "s' = relink s1 X (bp s X) N"
                by (auto simp: bindR_eq_Inr ok_def Let_def bp_def)
              from binv_rotate_RightLeft[OF i Z PZ \<open>br s X = Some Z\<close> rr]
                same_rest_relink_RightLeft[OF rr] s'
              show ?thesis by blast
            next
              case False
              with eq r bpZ RX rot have
                s': "s' = relink (fst (rotate_Left s X Z)) X (bp s X) Z"
                by (auto simp: ok_def Let_def bp_def rotate_Left_def)
              from binv_rotate_Left[OF i Z PZ \<open>br s X = Some Z\<close>] same_rest_relink_Left s'
              show ?thesis by blast
            qed
          next
            case stop
            with eq r bpZ RX have "s' = upd s X (\<lambda>n. n\<lparr>bF := 0\<rparr>)"
              by (auto simp: ok_def)
            with i show ?thesis by auto
          next
            case up
            with eq r bpZ RX have "f (upd s X (\<lambda>n. n\<lparr>bF := 1\<rparr>)) X = Some (Inr s')"
              by auto
            from IH[OF this, rule_format, OF refl] i X(1)
            have "(\<exists>t'. binv s' t' \<and> inorder t' = inorder t) \<and>
                  same_rest (upd s X (\<lambda>n. n\<lparr>bF := 1\<rparr>)) s'"
              by simp
            then show ?thesis
              using same_rest_trans[OF same_rest_upd_bF[of s X 1], of s'] by blast
          qed
        next
          case False
          with X have LX: "bl s X = Some Z" by simp
          from False have RX: "bRightChild (nodes s X) \<noteq> Some Z" by (simp add: br_def)
          consider (rot) "bF (nodes s X) < 0" | (stop) "bF (nodes s X) > 0" | (up) "bF (nodes s X) = 0"
            by linarith
          then show ?thesis
          proof cases
            case rot
            show ?thesis
            proof (cases "bF (nodes s Z) > 0")
              case True
              with eq r bpZ RX rot obtain s1 N where
                rr: "rotate_LeftRight s X Z = Some (Inr (s1, N))"
                and s': "s' = relink s1 X (bp s X) N"
                by (auto simp: bindR_eq_Inr ok_def Let_def bp_def)
              from binv_rotate_LeftRight[OF i Z PZ LX rr]
                same_rest_relink_LeftRight[OF rr] s'
              show ?thesis by blast
            next
              case False
              with eq r bpZ RX rot have
                s': "s' = relink (fst (rotate_Right s X Z)) X (bp s X) Z"
                by (auto simp: ok_def Let_def bp_def rotate_Right_def)
              from binv_rotate_Right[OF i Z PZ LX] same_rest_relink_Right s'
              show ?thesis by blast
            qed
          next
            case stop
            with eq r bpZ RX have "s' = upd s X (\<lambda>n. n\<lparr>bF := 0\<rparr>)"
              by (auto simp: ok_def)
            with i show ?thesis by auto
          next
            case up
            with eq r bpZ RX have "f (upd s X (\<lambda>n. n\<lparr>bF := - 1\<rparr>)) X = Some (Inr s')"
              by auto
            from IH[OF this, rule_format, OF refl] i X(1)
            have "(\<exists>t'. binv s' t' \<and> inorder t' = inorder t) \<and>
                  same_rest (upd s X (\<lambda>n. n\<lparr>bF := - 1\<rparr>)) s'"
              by simp
            then show ?thesis
              using same_rest_trans[OF same_rest_upd_bF[of s X "- 1"], of s'] by blast
          qed
        qed
      qed
    qed
  qed
  with assms show ?thesis by blast
qed


section \<open>The walks that adjust the counts\<close>

text \<open>
  During the walk every node satisfies the count equation except the current one,
  whose count is still off by the amount \<open>d\<close> that the walk adds.
\<close>

definition counts_but ::
  "nat \<Rightarrow> (nat \<Rightarrow> nat option) \<Rightarrow> (nat \<Rightarrow> nat option) \<Rightarrow> (nat \<Rightarrow> int) \<Rightarrow> (nat \<Rightarrow> bool) \<Rightarrow>
   nat \<Rightarrow> int \<Rightarrow> bool" where
  "counts_but K L R C Pr a d \<longleftrightarrow>
     (\<forall>x<K. C x + (if x = a then d else 0) = count_at L R C Pr x)"

lemma counts_but_step:
  assumes g: "bgraph K root L R P" and a: "a < K" and c: "counts_but K L R C Pr a d"
  shows "case P a of None \<Rightarrow> counts_ok K L R (C(a := C a + d)) Pr
         | Some p \<Rightarrow> p < K \<and> counts_but K L R (C(a := C a + d)) Pr p d"
proof -
  note lf = bgraph_left[OF g] and rf = bgraph_right[OF g] and pf = bgraph_parent[OF g]
  let ?C = "C(a := C a + d)"
  have La: "L a \<noteq> Some a" and Ra: "R a \<noteq> Some a" using lf(4)[OF a, of a] rf(4)[OF a, of a] by auto
  have ca: "?C a = count_at L R ?C Pr a"
    using c[unfolded counts_but_def, rule_format, OF a] La Ra
    by (simp add: count_at_def copt_upd)
  have other: "?C x = count_at L R ?C Pr x"
    if "x < K" "x \<noteq> a" "P a \<noteq> Some x" for x
  proof -
    from that lf(2)[OF that(1), of a] rf(2)[OF that(1), of a]
    have "L x \<noteq> Some a" "R x \<noteq> Some a" by auto
    with c[unfolded counts_but_def, rule_format, OF that(1)] that show ?thesis
      by (simp add: count_at_def copt_upd)
  qed
  show ?thesis
  proof (cases "P a")
    case None
    with ca other show ?thesis by (auto simp: counts_ok_def)
  next
    case (Some p)
    from pf[OF a Some] have p: "p < K" "p \<noteq> a" "L p = Some a \<or> R p = Some a" by auto
    from lf(3)[OF p(1), of a] p(3) have x: "L p = Some a \<longleftrightarrow> R p \<noteq> Some a" by auto
    from c[unfolded counts_but_def, rule_format, OF p(1)] p
    have "C p = count_at L R C Pr p" by simp
    with p x have cp: "?C p + d = count_at L R ?C Pr p"
      by (auto simp: count_at_def copt_upd)
    show ?thesis
      unfolding Some option.case counts_but_def
    proof (intro conjI allI impI)
      show "p < K" by (rule p)
      fix x assume xK: "x < K"
      show "?C x + (if x = p then d else 0) = count_at L R ?C Pr x"
      proof (cases "x = p")
        case True
        with cp show ?thesis by simp
      next
        case False
        show ?thesis
        proof (cases "x = a")
          case True
          with ca p show ?thesis by simp
        next
          case False
          with other[OF xK False] \<open>x \<noteq> p\<close> Some show ?thesis by simp
        qed
      qed
    qed
  qed
qed

lemma add_bCount_inv:
  assumes "add_bCount s anc d = Some (Inr s')" "bt s t"
    and "case anc of None \<Rightarrow> cwf s
         | Some a \<Rightarrow> a < ncount s \<and> counts_but (ncount s) (bl s) (br s) (bc s) (pr s) a d"
  shows "binv s' t \<and> same_rest s s'"
proof -
  have "d' = d \<longrightarrow> (\<forall>s'. r = Inr s' \<longrightarrow> bt s t \<longrightarrow>
          (case anc of None \<Rightarrow> cwf s
           | Some a \<Rightarrow> a < ncount s \<and> counts_but (ncount s) (bl s) (br s) (bc s) (pr s) a d) \<longrightarrow>
          binv s' t \<and> same_rest s s')"
    if h: "add_bCount s anc d' = Some r" for s anc r d'
  proof (rule add_bCount.raw_induct[where P = "\<lambda>s anc d' r. d' = d \<longrightarrow> (\<forall>s'. r = Inr s' \<longrightarrow> bt s t \<longrightarrow>
          (case anc of None \<Rightarrow> cwf s
           | Some a \<Rightarrow> a < ncount s \<and> counts_but (ncount s) (bl s) (br s) (bc s) (pr s) a d) \<longrightarrow>
          binv s' t \<and> same_rest s s')", OF _ h], goal_cases)
    case (1 f s anc d' r)
    note IH = 1(1) and eq = 1(2)
    show ?case
    proof (intro impI allI)
      fix s' assume d': "d' = d" and r: "r = Inr s'" and b: "bt s t"
        and pre: "case anc of None \<Rightarrow> cwf s
           | Some a \<Rightarrow> a < ncount s \<and> counts_but (ncount s) (bl s) (br s) (bc s) (pr s) a d"
      show "binv s' t \<and> same_rest s s'"
      proof (cases anc)
        case None
        with eq r b pre show ?thesis by (simp add: ok_def binv_def)
      next
        case (Some a)
        let ?s1 = "upd s a (\<lambda>n. n\<lparr>bCount := bCount n + d\<rparr>)"
        from Some pre have a: "a < ncount s"
          and cb: "counts_but (ncount s) (bl s) (br s) (bc s) (pr s) a d" by auto
        from b have g: "bgraph (ncount s) (bRootNode s) (bl s) (br s) (bp s)"
          by (auto simp: bt_def intro: btree_bgraph)
        from eq r Some d' have f: "f ?s1 (bp s a) d = Some (Inr s')"
          by (simp add: bp_def)
        have v: "bl ?s1 = bl s" "br ?s1 = br s" "bp ?s1 = bp s" "pr ?s1 = pr s"
          "bc ?s1 = (bc s)(a := bc s a + d)" "ncount ?s1 = ncount s"
          "bRootNode ?s1 = bRootNode s"
          by (simp_all add: bc_def[of s a])
        have b1: "bt ?s1 t" using b by (simp add: bt_def v)
        have sr: "same_rest s ?s1" by (simp add: same_rest_def v)
        from counts_but_step[OF g a cb]
        have "case bp s a of None \<Rightarrow> cwf ?s1
           | Some p \<Rightarrow> p < ncount ?s1 \<and>
               counts_but (ncount ?s1) (bl ?s1) (br ?s1) (bc ?s1) (pr ?s1) p d"
          unfolding cwf_def v by (simp split: option.splits)
        from IH[OF f, rule_format, OF refl refl b1 this] sr
        show ?thesis using same_rest_trans by blast
      qed
    qed
  qed
  with assms show ?thesis by blast
qed


section \<open>Attaching a new leaf\<close>

lemma btree_attach_left:
  assumes bt: "btree K root L R P t" and cur: "cur < K" and Lc: "L cur = None"
    and LK: "L K = None" and RK: "R K = None"
  shows "\<exists>t' xs ys. btree (Suc K) root (L(cur := Some K)) R (P(K := Some cur)) t' \<and>
           inorder t = xs @ cur # ys \<and> inorder t' = xs @ K # cur # ys"
proof -
  let ?L = "L(cur := Some K)" and ?P = "P(K := Some cur)"
  from bt have pt: "ptree L R P None (Some root) t" and d: "distinct (inorder t)"
    and n: "nodes_of t = {..<K}" by (auto simp: btree_def)
  from cur n have ct: "cur \<in> nodes_of t" by auto
  from n have Kt: "K \<notin> nodes_of t" by auto
  from ptree_sub_at[OF pt ct] Lc obtain r where
    sub: "sub_at cur t = Nd Lf cur r" and pr: "ptree L R P (Some cur) (R cur) r"
    by (auto simp: ptree_Some)
  from distinct_sub_at[OF d, of cur] sub have cr: "cur \<notin> nodes_of r" by auto
  from nodes_sub_at[of cur t] sub Kt have Kr: "K \<notin> nodes_of r" by auto
  let ?t' = "Nd (Nd Lf K Lf) cur r"
  have nr: "ptree ?L R ?P (Some cur) (R cur) r"
  proof (subst ptree_frame[where L = L and R = R and P = P])
    show "\<forall>a\<in>nodes_of r. ?L a = L a \<and> R a = R a \<and> ?P a = P a"
      using cr Kr by auto
  qed (rule pr)
  have new: "ptree ?L R ?P (P cur) (Some cur) ?t'"
    using nr cur LK RK by simp
  have out: "\<forall>a\<in>nodes_of t - nodes_of (sub_at cur t).
      ?P a = P a \<and> ?L a = (if L a = Some cur then Some cur else L a) \<and>
      R a = (if R a = Some cur then Some cur else R a)"
    using Kt sub by auto
  have "ptree ?L R ?P None (if Some root = Some cur then Some cur else Some root)
      (subst_at cur ?t' t)"
    by (rule ptree_subst[OF pt d ct out new])
  moreover have "(if Some root = Some cur then Some cur else Some root) = Some root" by simp
  ultimately have pt': "ptree ?L R ?P None (Some root) (subst_at cur ?t' t)" by (simp only:)
  from inorder_subst_at[OF d ct, of ?t'] sub obtain xs ys where
    io: "inorder t = xs @ cur # inorder r @ ys"
    "inorder (subst_at cur ?t' t) = xs @ K # cur # inorder r @ ys"
    by auto
  have st: "nodes_of t = set xs \<union> {cur} \<union> nodes_of r \<union> set ys"
    using arg_cong[OF io(1), of set] by auto
  from d have "distinct (xs @ cur # inorder r @ ys)" by (simp only: io(1))
  with Kt st have "distinct (xs @ K # cur # inorder r @ ys)" by auto
  with io(2) have d': "distinct (inorder (subst_at cur ?t' t))" by simp
  have "nodes_of (subst_at cur ?t' t) = insert K (nodes_of t)"
    using st arg_cong[OF io(2), of set] by auto
  with n have n': "nodes_of (subst_at cur ?t' t) = {..<Suc K}" by (auto simp: lessThan_Suc)
  have "btree (Suc K) root ?L R ?P (subst_at cur ?t' t)"
    unfolding btree_def using pt' d' n' by blast
  with io show ?thesis by (intro exI[of _ "subst_at cur ?t' t"] exI[of _ xs] exI[of _ "inorder r @ ys"]) simp
qed

lemma btree_attach_right:
  assumes bt: "btree K root L R P t" and cur: "cur < K" and Rc: "R cur = None"
    and LK: "L K = None" and RK: "R K = None"
  shows "\<exists>t' xs ys. btree (Suc K) root L (R(cur := Some K)) (P(K := Some cur)) t' \<and>
           inorder t = xs @ cur # ys \<and> inorder t' = xs @ cur # K # ys"
proof -
  from bt have m: "btree K root R L P (mirror t)" by (simp add: btree_mirror)
  from btree_attach_left[OF m cur Rc RK LK] obtain t' xs ys where
    b: "btree (Suc K) root (R(cur := Some K)) L (P(K := Some cur)) t'"
    and i: "inorder (mirror t) = xs @ cur # ys" "inorder t' = xs @ K # cur # ys"
    by blast
  have mm: "mirror (mirror u) = u" for u by (induction u) auto
  from b have b': "btree (Suc K) root L (R(cur := Some K)) (P(K := Some cur)) (mirror t')"
    using btree_mirror[of "Suc K" root "R(cur := Some K)" L _ "mirror t'"] by (simp add: mm)
  from i(1) have "rev (rev (inorder t)) = rev (xs @ cur # ys)" by simp
  then have 1: "inorder t = rev ys @ cur # rev xs" by simp
  from i(2) have 2: "inorder (mirror t') = rev ys @ cur # K # rev xs" by simp
  from b' 1 2 show ?thesis by blast
qed

lemma counts_attach:
  assumes g: "bgraph K root L R P" and c: "counts_ok K L R C Pr" and cur: "cur < K"
    and LK: "L K = None" "R K = None" and CK: "C K = 0" and PK: "Pr K"
    and L': "L' = L(cur := Some K) \<and> L cur = None \<and> R' = R \<or>
             R' = R(cur := Some K) \<and> R cur = None \<and> L' = L"
  shows "counts_but (Suc K) L' R' C Pr K 1"
  unfolding counts_but_def
proof (intro allI impI)
  fix x assume "x < Suc K"
  then consider "x = K" | "x = cur" | "x < K" "x \<noteq> cur" by (cases "x = K") auto
  then show "C x + (if x = K then 1 else 0) = count_at L' R' C Pr x"
  proof cases
    case 1
    with L' LK CK PK cur show ?thesis by (auto simp: count_at_def)
  next
    case 2
    from c cur have "C cur = count_at L R C Pr cur" by (simp add: counts_ok_def)
    with 2 L' CK cur show ?thesis by (auto simp: count_at_def)
  next
    case 3
    from c 3 have "C x = count_at L R C Pr x" by (simp add: counts_ok_def)
    with 3 L' show ?thesis by (auto simp: count_at_def)
  qed
qed

section \<open>Descending to the end of a subtree\<close>

lemma descend_left_end:
  assumes "descend_left s a = Some (Inr c)" "bgraph K root (bl s) (br s) (bp s)" "a < K"
  shows "c < K \<and> bl s c = None"
proof -
  have "s' = s \<longrightarrow> a < K \<longrightarrow> (\<forall>c. r = Inr c \<longrightarrow> c < K \<and> bl s c = None)"
    if h: "descend_left s' a = Some r" for s' a r
  proof (rule descend_left.raw_induct[where P = "\<lambda>s' a r. s' = s \<longrightarrow> a < K \<longrightarrow>
        (\<forall>c. r = Inr c \<longrightarrow> c < K \<and> bl s c = None)", OF _ h], goal_cases)
    case (1 f s' a r)
    note IH = 1(1) and eq = 1(2)
    show ?case
    proof (intro impI allI)
      fix c assume s': "s' = s" and a: "a < K" and r: "r = Inr c"
      show "c < K \<and> bl s c = None"
      proof (cases "bl s a")
        case None
        with eq r s' a show ?thesis by (simp add: ok_def bl_def)
      next
        case (Some l)
        with eq r s' have "f s l = Some (Inr c)" by (simp add: bl_def)
        from IH[OF this] bgraph_left(1)[OF assms(2) a Some] show ?thesis by simp
      qed
    qed
  qed
  with assms show ?thesis by blast
qed

lemma descend_right_end:
  assumes "descend_right s a = Some (Inr c)" "bgraph K root (bl s) (br s) (bp s)" "a < K"
  shows "c < K \<and> br s c = None"
proof -
  have "s' = s \<longrightarrow> a < K \<longrightarrow> (\<forall>c. r = Inr c \<longrightarrow> c < K \<and> br s c = None)"
    if h: "descend_right s' a = Some r" for s' a r
  proof (rule descend_right.raw_induct[where P = "\<lambda>s' a r. s' = s \<longrightarrow> a < K \<longrightarrow>
        (\<forall>c. r = Inr c \<longrightarrow> c < K \<and> br s c = None)", OF _ h], goal_cases)
    case (1 f s' a r)
    note IH = 1(1) and eq = 1(2)
    show ?case
    proof (intro impI allI)
      fix c assume s': "s' = s" and a: "a < K" and r: "r = Inr c"
      show "c < K \<and> br s c = None"
      proof (cases "br s a")
        case None
        with eq r s' a show ?thesis by (simp add: ok_def br_def)
      next
        case (Some l)
        with eq r s' have "f s l = Some (Inr c)" by (simp add: br_def)
        from IH[OF this] bgraph_right(1)[OF assms(2) a Some] show ?thesis by simp
      qed
    qed
  qed
  with assms show ?thesis by blast
qed


lemma attach_inv:
  assumes b: "btree K (bRootNode s) (bl s) (br s) (bp s) t"
    and c: "counts_ok K (bl s) (br s) (bc s) (pr s)"
    and n: "ncount s = Suc K"
    and new: "bl s K = None" "br s K = None" "bc s K = 0" "pr s K"
    and at: "attach s K predecessor successor = Some (Inr s')"
    and nb: "case predecessor of Some p \<Rightarrow> p < K
             | None \<Rightarrow> (case successor of Some sc \<Rightarrow> sc < K | None \<Rightarrow> False)"
  shows "(\<exists>t'. bt s' t') \<and> K < ncount s' \<and>
         counts_but (ncount s') (bl s') (br s') (bc s') (pr s') K 1 \<and> same_rest s s'"
proof -
  note g = btree_bgraph[OF b]
  have left: "(\<exists>t'. bt s' t') \<and> K < ncount s' \<and>
         counts_but (ncount s') (bl s') (br s') (bc s') (pr s') K 1 \<and> same_rest s s'"
    if cur: "cur < K" "bl s cur = None"
      and s': "s' = upd (upd s cur (\<lambda>n. n\<lparr>bLeftChild := Some K\<rparr>)) K (\<lambda>n. n\<lparr>bParent := Some cur\<rparr>)"
    for cur
  proof -
    have v: "bl s' = (bl s)(cur := Some K)" "br s' = br s" "bp s' = (bp s)(K := Some cur)"
      "bc s' = bc s" "pr s' = pr s" "ncount s' = Suc K" "bRootNode s' = bRootNode s"
      "rest s' = rest s"
      unfolding s' by (simp_all add: n)
    from btree_attach_left[OF b cur new(1,2)] obtain t' where
      "btree (Suc K) (bRootNode s) ((bl s)(cur := Some K)) (br s) ((bp s)(K := Some cur)) t'"
      by blast
    then have "bt s' t'" by (simp add: bt_def v)
    moreover from counts_attach[OF g c cur(1) new, of "(bl s)(cur := Some K)" "br s"] cur
    have "counts_but (ncount s') (bl s') (br s') (bc s') (pr s') K 1" by (simp add: v)
    ultimately show ?thesis by (auto simp: same_rest_def v n)
  qed
  have right: "(\<exists>t'. bt s' t') \<and> K < ncount s' \<and>
         counts_but (ncount s') (bl s') (br s') (bc s') (pr s') K 1 \<and> same_rest s s'"
    if cur: "cur < K" "br s cur = None"
      and s': "s' = upd (upd s cur (\<lambda>n. n\<lparr>bRightChild := Some K\<rparr>)) K (\<lambda>n. n\<lparr>bParent := Some cur\<rparr>)"
    for cur
  proof -
    have v: "bl s' = bl s" "br s' = (br s)(cur := Some K)" "bp s' = (bp s)(K := Some cur)"
      "bc s' = bc s" "pr s' = pr s" "ncount s' = Suc K" "bRootNode s' = bRootNode s"
      "rest s' = rest s"
      unfolding s' by (simp_all add: n)
    from btree_attach_right[OF b cur new(1,2)] obtain t' where
      "btree (Suc K) (bRootNode s) (bl s) ((br s)(cur := Some K)) ((bp s)(K := Some cur)) t'"
      by blast
    then have "bt s' t'" by (simp add: bt_def v)
    moreover from counts_attach[OF g c cur(1) new, of "bl s" "(br s)(cur := Some K)"] cur
    have "counts_but (ncount s') (bl s') (br s') (bc s') (pr s') K 1" by (simp add: v)
    ultimately show ?thesis by (auto simp: same_rest_def v n)
  qed
  show ?thesis
  proof (cases predecessor)
    case (Some p)
    with nb have p: "p < K" by simp
    show ?thesis
    proof (cases "br s p")
      case None
      with at Some have "s' = upd (upd s p (\<lambda>n. n\<lparr>bRightChild := Some K\<rparr>)) K (\<lambda>n. n\<lparr>bParent := Some p\<rparr>)"
        by (simp add: attach_def ok_def br_def)
      from right[OF p None this] show ?thesis .
    next
      case (Some r)
      with at \<open>predecessor = Some p\<close> obtain cur where
        dl: "descend_left s r = Some (Inr cur)" and
        s': "s' = upd (upd s cur (\<lambda>n. n\<lparr>bLeftChild := Some K\<rparr>)) K (\<lambda>n. n\<lparr>bParent := Some cur\<rparr>)"
        by (auto simp: attach_def ok_def br_def bindR_eq_Inr)
      from descend_left_end[OF dl g bgraph_right(1)[OF g p Some]] left s' show ?thesis by blast
    qed
  next
    case None
    with nb obtain sc where sc: "successor = Some sc" "sc < K" by (auto split: option.splits)
    show ?thesis
    proof (cases "bl s sc")
      case None
      with at sc \<open>predecessor = None\<close>
      have "s' = upd (upd s sc (\<lambda>n. n\<lparr>bLeftChild := Some K\<rparr>)) K (\<lambda>n. n\<lparr>bParent := Some sc\<rparr>)"
        by (simp add: attach_def ok_def bl_def)
      from left[OF sc(2) None this] show ?thesis .
    next
      case (Some l)
      with at sc \<open>predecessor = None\<close> obtain cur where
        dl: "descend_right s l = Some (Inr cur)" and
        s': "s' = upd (upd s cur (\<lambda>n. n\<lparr>bRightChild := Some K\<rparr>)) K (\<lambda>n. n\<lparr>bParent := Some cur\<rparr>)"
        by (auto simp: attach_def ok_def bl_def bindR_eq_Inr)
      from descend_right_end[OF dl g bgraph_left(1)[OF g sc(2) Some]] right s' show ?thesis by blast
    qed
  qed
qed

text \<open>The balanced index does not read the fields of unallocated nodes.\<close>

lemma btree_cong:
  assumes "\<forall>a<K. L' a = L a \<and> R' a = R a \<and> P' a = P a"
  shows "btree K root L' R' P' t \<longleftrightarrow> btree K root L R P t"
proof -
  have "nodes_of t = {..<K} \<Longrightarrow> ptree L' R' P' None (Some root) t \<longleftrightarrow> ptree L R P None (Some root) t"
    using assms by (intro ptree_frame) auto
  then show ?thesis by (auto simp: btree_def)
qed

lemma counts_ok_cong:
  assumes g: "bgraph K root L R P"
    and "\<forall>a<K. L' a = L a \<and> R' a = R a \<and> C' a = C a \<and> Pr' a = Pr a"
  shows "counts_ok K L' R' C' Pr' \<longleftrightarrow> counts_ok K L R C Pr"
proof -
  have "count_at L' R' C' Pr' a = count_at L R C Pr a" if a: "a < K" for a
  proof -
    from bgraph_closed[OF g a] have "optlt (L a) K" "optlt (R a) K" by auto
    then have "copt C' (L a) = copt C (L a)" "copt C' (R a) = copt C (R a)"
      using assms(2) by (cases "L a"; cases "R a"; simp)+
    with assms(2) a show ?thesis by (simp add: count_at_def)
  qed
  with assms(2) show ?thesis by (simp add: counts_ok_def)
qed


section \<open>The invariant of a replica\<close>

definition idv :: "state \<Rightarrow> nat \<Rightarrow> string" where
  "idv s a = id_n (nodes s a)"

definition valv :: "state \<Rightarrow> nat \<Rightarrow> string" where
  "valv s a = value_n (nodes s a)"

lemma rest_eqD:
  assumes "rest s' = rest s"
  shows "idv s' = idv s" "valv s' = valv s" "nodesByID s' = nodesByID s"
    "leftSALM s' = leftSALM s" "rightSALM s' = rightSALM s" "rootNode s' = rootNode s"
  using assms by (auto simp: rest_def idv_def valv_def fun_eq_iff)

definition dir_ok :: "state \<Rightarrow> bool" where
  "dir_ok s \<longleftrightarrow>
     (\<forall>i a. nodesByID s i = Some a \<longrightarrow> a < ncount s) \<and>
     (\<forall>a<ncount s. nodesByID s (idv s a) = Some a)"

definition vals_ok :: "state \<Rightarrow> bool" where
  "vals_ok s \<longleftrightarrow> (\<forall>a<ncount s. pr s a \<longrightarrow> length (valv s a) = 1)"

definition wf_state :: "state \<Rightarrow> bool" where
  "wf_state s \<longleftrightarrow>
     (\<exists>t. binv s t) \<and> salm_closed (ncount s) (leftSALM s) \<and>
     salm_closed (ncount s) (rightSALM s) \<and> dir_ok s \<and> vals_ok s"

text \<open>The state of \<open>receivePrimitive\<close> after the new node has been put into the
  directory and into the sibling list of its parent.\<close>

definition alloc1 :: "state \<Rightarrow> string \<Rightarrow> nat \<Rightarrow> bool \<Rightarrow> string \<Rightarrow> state" where
  "alloc1 s i par isLeft v =
     s\<lparr> nodes := (nodes s)(ncount s := new_Node i (Some par) isLeft v True),
        ncount := Suc (ncount s),
        nodesByID := (nodesByID s)(i := Some (ncount s)) \<rparr>"

definition new_index :: "state \<Rightarrow> string \<Rightarrow> nat \<Rightarrow> bool \<Rightarrow> string \<Rightarrow> nat" where
  "new_index s i par isLeft v =
     siblingIndex (alloc1 s i par isLeft v) i (children (nodes (alloc1 s i par isLeft v) par) isLeft)"

definition new_siblings :: "state \<Rightarrow> string \<Rightarrow> nat \<Rightarrow> bool \<Rightarrow> string \<Rightarrow> nat list" where
  "new_siblings s i par isLeft v =
     (let sib = children (nodes (alloc1 s i par isLeft v) par) isLeft;
          k = new_index s i par isLeft v
      in take k sib @ [ncount s] @ drop k sib)"

definition alloc :: "state \<Rightarrow> string \<Rightarrow> nat \<Rightarrow> bool \<Rightarrow> string \<Rightarrow> state" where
  "alloc s i par isLeft v =
     (if isLeft
      then upd (alloc1 s i par isLeft v) par
             (\<lambda>n. n\<lparr> leftChildren := new_siblings s i par isLeft v \<rparr>)
      else upd (alloc1 s i par isLeft v) par
             (\<lambda>n. n\<lparr> rightChildren := new_siblings s i par isLeft v \<rparr>))"

lemma receive_insert_alt:
  assumes "nodesByID s parentID = Some par"
  shows "receive_insert s i parentID isLeft v meta =
     (let K = ncount s; sb = alloc s i par isLeft v;
          siblings = new_siblings s i par isLeft v; k = new_index s i par isLeft v in
      bindR (getNeighbor sb K siblings k) (\<lambda>(predecessor, successor).
      bindR (attach sb K predecessor successor) (\<lambda>s.
      bindR (add_bCount s (Some K) 1) (\<lambda>s.
      bindR (rebalance s K) (\<lambda>s.
      bindR (update_SALMs s K par siblings k) (\<lambda>s.
      bindR (nodeToIndex s K) (\<lambda>(startIndex, _).
        ok (s, Some (InsertEvent startIndex 1 meta)))))))))"
  unfolding receive_insert_def assms(1) option.case Let_def alloc_def new_siblings_def
    new_index_def alloc1_def
  by simp


lemma view_alloc:
  assumes "par \<noteq> ncount s"
  shows "ncount (alloc s i par isLeft v) = Suc (ncount s)"
    "bRootNode (alloc s i par isLeft v) = bRootNode s"
    "bl (alloc s i par isLeft v) = (bl s)(ncount s := None)"
    "br (alloc s i par isLeft v) = (br s)(ncount s := None)"
    "bp (alloc s i par isLeft v) = (bp s)(ncount s := None)"
    "bc (alloc s i par isLeft v) = (bc s)(ncount s := 0)"
    "pr (alloc s i par isLeft v) = (pr s)(ncount s := True)"
    "idv (alloc s i par isLeft v) = (idv s)(ncount s := i)"
    "valv (alloc s i par isLeft v) = (valv s)(ncount s := v)"
    "nodesByID (alloc s i par isLeft v) = (nodesByID s)(i := Some (ncount s))"
    "leftSALM (alloc s i par isLeft v) = leftSALM s"
    "rightSALM (alloc s i par isLeft v) = rightSALM s"
    "isLeftChild (nodes (alloc s i par isLeft v) (ncount s)) = isLeft"
    "parent (nodes (alloc s i par isLeft v) (ncount s)) = Some par"
  using assms
  by (auto simp: alloc_def alloc1_def upd_def bl_def br_def bp_def bc_def pr_def idv_def valv_def
      new_Node_def fun_eq_iff)

lemma getNeighbor_bound:
  assumes "getNeighbor s node siblings k = Some (Inr (predecessor, successor))"
    and "parent (nodes s node) = Some par" "par < n"
    and "salm_closed n (leftSALM s)" "salm_closed n (rightSALM s)"
  shows "case predecessor of Some p \<Rightarrow> p < n
         | None \<Rightarrow> (case successor of Some sc \<Rightarrow> sc < n | None \<Rightarrow> False)"
proof -
  note [simp] = assms(2)
  from assms(1,3-5) show ?thesis
    by (auto simp: getNeighbor_def ok_def err_def bindR_eq_Inr split: if_splits
        dest: getEnd_closed)
qed

lemma update_SALMs_closed:
  assumes "update_SALMs s node par siblings k = Some (Inr s')"
    and "salm_closed n (leftSALM s)" "salm_closed n (rightSALM s)" "par < n" "node < n"
  shows "salm_closed n (leftSALM s') \<and> salm_closed n (rightSALM s') \<and>
         s' = s\<lparr> leftSALM := leftSALM s', rightSALM := rightSALM s' \<rparr>"
proof (cases "isLeftChild (nodes s node)")
  case True
  with assms(1) obtain l where
    l: "(if k = 0 then
           bindR (if length siblings \<ge> 2 then split (leftSALM s) par else ok (leftSALM s))
             (\<lambda>l. append l par node)
         else ok (create (leftSALM s) node)) = Some (Inr l)"
    and s': "s' = s\<lparr> leftSALM := l, rightSALM := create (rightSALM s) node \<rparr>"
    by (auto simp: update_SALMs_def bindR_eq_Inr ok_def)
  have "salm_closed n l"
  proof (cases "k = 0")
    case True
    with l obtain l0 where
      l0: "(if length siblings \<ge> 2 then split (leftSALM s) par else ok (leftSALM s)) = Some (Inr l0)"
      and ap: "append l0 par node = Some (Inr l)"
      by (auto simp: bindR_eq_Inr)
    from l0 assms(2,4) have "salm_closed n l0"
      by (auto simp: ok_def split: if_splits dest: split_closed)
    from append_closed[OF ap this assms(5)] show ?thesis .
  next
    case False
    with l assms(2,5) show ?thesis by (auto simp: ok_def intro: create_closed)
  qed
  with s' assms(3,5) show ?thesis by (auto intro: create_closed)
next
  case False
  with assms(1) obtain r where
    r: "(if int k = int (length siblings) - 1 then
           bindR (if length siblings \<ge> 2 then split (rightSALM s) par else ok (rightSALM s))
             (\<lambda>r. append r par node)
         else ok (create (rightSALM s) node)) = Some (Inr r)"
    and s': "s' = s\<lparr> rightSALM := r, leftSALM := create (leftSALM s) node \<rparr>"
    by (auto simp: update_SALMs_def bindR_eq_Inr ok_def)
  have "salm_closed n r"
  proof (cases "int k = int (length siblings) - 1")
    case True
    with r obtain r0 where
      r0: "(if length siblings \<ge> 2 then split (rightSALM s) par else ok (rightSALM s)) = Some (Inr r0)"
      and ap: "append r0 par node = Some (Inr r)"
      by (auto simp: bindR_eq_Inr)
    from r0 assms(3,4) have "salm_closed n r0"
      by (auto simp: ok_def split: if_splits dest: split_closed)
    from append_closed[OF ap this assms(5)] show ?thesis .
  next
    case False
    with r assms(3,5) show ?thesis by (auto simp: ok_def intro: create_closed)
  qed
  with s' assms(2,5) show ?thesis by (auto intro: create_closed)
qed

lemma view_salm_upd [simp]:
  "bl (s\<lparr> leftSALM := l, rightSALM := r \<rparr>) = bl s"
  "br (s\<lparr> leftSALM := l, rightSALM := r \<rparr>) = br s"
  "bp (s\<lparr> leftSALM := l, rightSALM := r \<rparr>) = bp s"
  "bc (s\<lparr> leftSALM := l, rightSALM := r \<rparr>) = bc s"
  "pr (s\<lparr> leftSALM := l, rightSALM := r \<rparr>) = pr s"
  "idv (s\<lparr> leftSALM := l, rightSALM := r \<rparr>) = idv s"
  "valv (s\<lparr> leftSALM := l, rightSALM := r \<rparr>) = valv s"
  by (simp_all add: bl_def br_def bp_def bc_def pr_def idv_def valv_def fun_eq_iff)

lemma receive_insert_inv:
  assumes i: "wf_state s"
    and r: "receive_insert s i parentID isLeft v meta = Some (Inr (s', e))"
    and fresh: "nodesByID s i = None" and v: "length v = 1"
  shows "wf_state s' \<and> ncount s' = Suc (ncount s) \<and> pr s' = (pr s)(ncount s := True) \<and>
         idv s' = (idv s)(ncount s := i) \<and> valv s' = (valv s)(ncount s := v) \<and>
         nodesByID s' = (nodesByID s)(i := Some (ncount s))"
proof -
  let ?K = "ncount s"
  from i obtain t where b: "bt s t" and c: "cwf s"
    and sl: "salm_closed ?K (leftSALM s)" and sr: "salm_closed ?K (rightSALM s)"
    and d: "dir_ok s" and vo: "vals_ok s"
    by (auto simp: wf_state_def binv_def)
  from r obtain par where par: "nodesByID s parentID = Some par"
    by (auto simp: receive_insert_def err_def split: option.splits)
  with d have pK: "par < ?K" by (auto simp: dir_ok_def)
  then have pn: "par \<noteq> ?K" by simp
  note va = view_alloc[OF pn, of i isLeft v]
  let ?sb = "alloc s i par isLeft v"
  let ?sib = "new_siblings s i par isLeft v" and ?k = "new_index s i par isLeft v"
  from r[unfolded receive_insert_alt[OF par] Let_def] obtain predecessor successor sc sd se where
    gn: "getNeighbor ?sb ?K ?sib ?k = Some (Inr (predecessor, successor))"
    and at: "attach ?sb ?K predecessor successor = Some (Inr sc)"
    and ab: "add_bCount sc (Some ?K) 1 = Some (Inr sd)"
    and rb: "rebalance sd ?K = Some (Inr se)"
    and us: "update_SALMs se ?K par ?sib ?k = Some (Inr s')"
    by (auto simp: bindR_eq_Inr ok_def split: prod.splits)
  from b have b0: "btree ?K (bRootNode s) (bl s) (br s) (bp s) t" by (simp add: bt_def)
  note g = btree_bgraph[OF b0]
  have bb: "btree ?K (bRootNode ?sb) (bl ?sb) (br ?sb) (bp ?sb) t"
    using b0 by (subst btree_cong[where L = "bl s" and R = "br s" and P = "bp s"])
      (simp_all add: va)
  have cb: "counts_ok ?K (bl ?sb) (br ?sb) (bc ?sb) (pr ?sb)"
    using c unfolding cwf_def
    by (subst counts_ok_cong[OF g, where C = "bc s" and Pr = "pr s"]) (simp_all add: va)
  from getNeighbor_bound[OF gn va(14) pK] sl sr
  have nb: "case predecessor of Some p \<Rightarrow> p < ?K
         | None \<Rightarrow> (case successor of Some sc \<Rightarrow> sc < ?K | None \<Rightarrow> False)"
    by (simp add: va)
  from attach_inv[OF bb cb va(1) _ _ _ _ at nb] obtain t1 where
    1: "bt sc t1" "?K < ncount sc"
    "counts_but (ncount sc) (bl sc) (br sc) (bc sc) (pr sc) ?K 1" "same_rest ?sb sc"
    by (auto simp: va)
  from add_bCount_inv[OF ab 1(1)] 1(2,3) have 2: "binv sd t1" "same_rest sc sd" by auto
  from 1(2,4) 2(2) have Kd: "?K < ncount sd" by (simp add: same_rest_def)
  from rebalance_binv[OF rb 2(1) Kd] obtain t2 where 3: "binv se t2" "same_rest sd se" by blast
  from 1(4) 2(2) 3(2) have sre: "same_rest ?sb se"
    using same_rest_trans by blast
  then have re: "ncount se = Suc ?K" "pr se = (pr s)(?K := True)" "rest se = rest ?sb"
    by (simp_all add: same_rest_def va)
  note rd = rest_eqD[OF re(3)]
  have sle: "salm_closed (Suc ?K) (leftSALM se)" "salm_closed (Suc ?K) (rightSALM se)"
    using sl sr by (auto simp: rd va intro: salm_closed_mono)
  from update_SALMs_closed[OF us sle] pK
  have 4: "salm_closed (Suc ?K) (leftSALM s')" "salm_closed (Suc ?K) (rightSALM s')"
    and s': "s' = se\<lparr> leftSALM := leftSALM s', rightSALM := rightSALM s' \<rparr>"
    by auto
  have vs: "bl s' = bl se" "br s' = br se" "bp s' = bp se" "bc s' = bc se" "pr s' = pr se"
    "idv s' = idv se" "valv s' = valv se" "ncount s' = ncount se" "bRootNode s' = bRootNode se"
    "nodesByID s' = nodesByID se"
    by (subst s', simp)+
  have 5: "binv s' t2" using 3(1) by (simp add: binv_def bt_def cwf_def vs)
  have 6: "dir_ok s'"
    using d fresh unfolding dir_ok_def vs rd re va
    by (auto simp: less_Suc_eq)
  have 7: "vals_ok s'"
    using vo v unfolding vals_ok_def vs rd re va
    by (auto simp: less_Suc_eq)
  show ?thesis
    unfolding wf_state_def using 4 5 6 7 by (auto simp: vs re rd va)
qed


lemma counts_delete:
  assumes "counts_ok K L R C Pr" "Pr a"
  shows "counts_but K L R C (Pr(a := False)) a (- 1)"
  using assms by (auto simp: counts_ok_def counts_but_def count_at_def)

text \<open>The count walks write nothing but counts.\<close>

lemma add_bCount_frame:
  assumes "add_bCount s anc d = Some (Inr s')"
  shows "s' = s\<lparr> nodes := nodes s' \<rparr> \<and>
         (\<forall>a. nodes s' a = (nodes s a)\<lparr> bCount := bCount (nodes s' a) \<rparr>)"
proof -
  have "\<forall>s'. r = Inr s' \<longrightarrow> s' = s\<lparr> nodes := nodes s' \<rparr> \<and>
         (\<forall>a. nodes s' a = (nodes s a)\<lparr> bCount := bCount (nodes s' a) \<rparr>)"
    if h: "add_bCount s anc d = Some r" for s anc d r
  proof (rule add_bCount.raw_induct[where P = "\<lambda>s anc d r. \<forall>s'. r = Inr s' \<longrightarrow>
         s' = s\<lparr> nodes := nodes s' \<rparr> \<and>
         (\<forall>a. nodes s' a = (nodes s a)\<lparr> bCount := bCount (nodes s' a) \<rparr>)", OF _ h], goal_cases)
    case (1 f s anc d r)
    note IH = 1(1) and eq = 1(2)
    show ?case
    proof (intro allI impI)
      fix s' assume r: "r = Inr s'"
      show "s' = s\<lparr> nodes := nodes s' \<rparr> \<and>
         (\<forall>a. nodes s' a = (nodes s a)\<lparr> bCount := bCount (nodes s' a) \<rparr>)"
      proof (cases anc)
        case None
        with eq r show ?thesis by (simp add: ok_def)
      next
        case (Some a)
        let ?s1 = "upd s a (\<lambda>n. n\<lparr>bCount := bCount n + d\<rparr>)"
        from eq r Some have "f ?s1 (bParent (nodes s a)) d = Some (Inr s')" by simp
        from IH[OF this, rule_format, OF refl]
        have 1: "s' = ?s1\<lparr> nodes := nodes s' \<rparr>"
          and 2: "\<And>x. nodes s' x = (nodes ?s1 x)\<lparr> bCount := bCount (nodes s' x) \<rparr>"
          by auto
        from 1 have "s' = s\<lparr> nodes := nodes s' \<rparr>" by (simp add: upd_def)
        moreover have "nodes s' x = (nodes s x)\<lparr> bCount := bCount (nodes s' x) \<rparr>" for x
          using 2[of x] by (cases "x = a") (simp_all add: upd_def)
        ultimately show ?thesis by blast
      qed
    qed
  qed
  with assms show ?thesis by blast
qed

lemma frame_views:
  assumes "s' = s\<lparr> nodes := nodes s' \<rparr>"
    and "\<forall>a. nodes s' a = (nodes s a)\<lparr> bCount := bCount (nodes s' a) \<rparr>"
  shows "bl s' = bl s" "br s' = br s" "bp s' = bp s" "bRootNode s' = bRootNode s"
    "pr s' = pr s" "ncount s' = ncount s" "rest s' = rest s"
proof -
  have f: "bLeftChild (nodes s' a) = bLeftChild (nodes s a)"
    "bRightChild (nodes s' a) = bRightChild (nodes s a)"
    "bParent (nodes s' a) = bParent (nodes s a)"
    "isPresent (nodes s' a) = isPresent (nodes s a)"
    "id_n (nodes s' a) = id_n (nodes s a)"
    "parent (nodes s' a) = parent (nodes s a)"
    "isLeftChild (nodes s' a) = isLeftChild (nodes s a)"
    "value_n (nodes s' a) = value_n (nodes s a)"
    "leftChildren (nodes s' a) = leftChildren (nodes s a)"
    "rightChildren (nodes s' a) = rightChildren (nodes s a)" for a
    by (subst assms(2)[rule_format, of a], simp)+
  have g: "bRootNode s' = bRootNode s" "ncount s' = ncount s" "nodesByID s' = nodesByID s"
    "rootNode s' = rootNode s" "leftSALM s' = leftSALM s" "rightSALM s' = rightSALM s"
    by (subst assms(1), simp)+
  show "bl s' = bl s" "br s' = br s" "bp s' = bp s" "bRootNode s' = bRootNode s"
    "pr s' = pr s" "ncount s' = ncount s" "rest s' = rest s"
    by (simp_all add: bl_def br_def bp_def pr_def rest_def fun_eq_iff f g)
qed

lemma receive_delete_inv:
  assumes i: "wf_state s" and r: "receive_delete s i meta = Some (Inr (s', e))"
  shows "wf_state s' \<and> ncount s' = ncount s \<and> rest s' = rest s \<and>
         bl s' = bl s \<and> br s' = br s \<and> bp s' = bp s \<and> bRootNode s' = bRootNode s \<and>
         (\<exists>node. nodesByID s i = Some node \<and> node < ncount s \<and> pr s' = (pr s)(node := False) \<and>
            (\<not> pr s node \<longrightarrow> s' = s \<and> e = None)) \<and>
         (\<forall>t. binv s t \<longrightarrow> binv s' t)"
proof -
  let ?K = "ncount s"
  from i obtain t where b: "bt s t" and c: "cwf s"
    and sl: "salm_closed ?K (leftSALM s)" and sr: "salm_closed ?K (rightSALM s)"
    and d: "dir_ok s" and vo: "vals_ok s"
    by (auto simp: wf_state_def binv_def)
  from r obtain node where node: "nodesByID s i = Some node"
    by (auto simp: receive_delete_def err_def split: option.splits)
  with d have nK: "node < ?K" by (auto simp: dir_ok_def)
  show ?thesis
  proof (cases "pr s node")
    case False
    with r node have "s' = s" "e = None" by (auto simp: receive_delete_def ok_def pr_def)
    with i node nK False show ?thesis by (auto simp: fun_eq_iff)
  next
    case True
    let ?s1 = "upd s node (\<lambda>n. n\<lparr>isPresent := False\<rparr>)"
    from r node True have ab: "add_bCount ?s1 (Some node) (- 1) = Some (Inr s')"
      by (auto simp: receive_delete_def ok_def pr_def bindR_eq_Inr Let_def split: prod.splits)
    have cb: "counts_but (ncount ?s1) (bl ?s1) (br ?s1) (bc ?s1) (pr ?s1) node (- 1)"
      using counts_delete[OF c[unfolded cwf_def] True] by simp
    have binv': "binv s' u \<and> same_rest ?s1 s'" if "binv s u" for u
    proof -
      from that have "bt ?s1 u" by (simp add: binv_def bt_def)
      from add_bCount_inv[OF ab this] cb nK show ?thesis by simp
    qed
    from binv'[of t] b c have 1: "binv s' t" "same_rest ?s1 s'" by (auto simp: binv_def)
    then have re: "ncount s' = ?K" "pr s' = (pr s)(node := False)" "rest s' = rest s"
      by (simp_all add: same_rest_def)
    note rd = rest_eqD[OF re(3)]
    from 1(1) have g: "bt s' t" by (simp add: binv_def)
    from add_bCount_frame[OF ab] have fr: "s' = ?s1\<lparr> nodes := nodes s' \<rparr>"
      "\<forall>a. nodes s' a = (nodes ?s1 a)\<lparr> bCount := bCount (nodes s' a) \<rparr>" by auto
    from frame_views(1-4)[OF fr]
    have links: "bl s' = bl s \<and> br s' = br s \<and> bp s' = bp s \<and> bRootNode s' = bRootNode s"
      by simp
    have "dir_ok s'" using d unfolding dir_ok_def re rd .
    moreover have "vals_ok s'" using vo unfolding vals_ok_def re rd by auto
    ultimately have "wf_state s'"
      unfolding wf_state_def using 1(1) sl sr by (auto simp: re rd)
    with re node nK True links binv' show ?thesis by auto
  qed
qed


section \<open>Reachable states\<close>

text \<open>
  The states of a replica between two message handlers: the state after the
  constructor, and the state after a handler that returned. An insert message
  carries an identifier that the replica has not seen (identifiers are unique, and
  a message is delivered once) and one character (\<open>insert\<close> sends \<open>str.charAt(i)\<close>).
\<close>

inductive reachable :: "state \<Rightarrow> bool" where
  reachable_init: "reachable init_state"
| reachable_insert:
    "reachable s \<Longrightarrow> nodesByID s i = None \<Longrightarrow> length v = 1 \<Longrightarrow>
     receivePrimitive s (InsertMessage i p l v) () = Some (Inr (s', e)) \<Longrightarrow> reachable s'"
| reachable_delete:
    "reachable s \<Longrightarrow> receivePrimitive s (DeleteMessage i) () = Some (Inr (s', e)) \<Longrightarrow>
     reachable s'"

lemma wf_state_init: "wf_state init_state"
proof -
  have "binv init_state (Nd Lf 0 Lf)"
    by (auto simp: binv_def bt_def cwf_def btree_def counts_ok_def count_at_def init_state_def
        bl_def br_def bp_def bc_def pr_def new_Node_def)
  moreover have "salm_closed (ncount init_state) (leftSALM init_state)"
    "salm_closed (ncount init_state) (rightSALM init_state)"
    using salm_closed_init by (simp_all add: init_state_def)
  moreover have "dir_ok init_state" "vals_ok init_state"
    by (auto simp: dir_ok_def vals_ok_def init_state_def idv_def pr_def new_Node_def)
  ultimately show ?thesis unfolding wf_state_def by blast
qed

lemma reachable_inv: "reachable s \<Longrightarrow> wf_state s"
proof (induction rule: reachable.induct)
  case reachable_init
  show ?case by (rule wf_state_init)
next
  case (reachable_insert s i v p l s' e)
  from reachable_insert.hyps(4) have "receive_insert s i p l v () = Some (Inr (s', e))" by simp
  from receive_insert_inv[OF reachable_insert.IH this reachable_insert.hyps(2,3)]
  show ?case by simp
next
  case (reachable_delete s i s' e)
  from reachable_delete.hyps(2) have "receive_delete s i () = Some (Inr (s', e))" by simp
  from receive_delete_inv[OF reachable_delete.IH this]
  show ?case by simp
qed

section \<open>The counts (claim C5)\<close>

lemma ptree_count:
  assumes "ptree L R P par p t" "\<forall>a\<in>nodes_of t. C a = count_at L R C Pr a"
  shows "copt C p = int (length (filter Pr (inorder t)))"
  using assms
proof (induction t arbitrary: par p)
  case Lf
  then show ?case by simp
next
  case (Nd l a r)
  from Nd.prems(1) have p: "p = Some a"
    and l: "ptree L R P (Some a) (L a) l" and r: "ptree L R P (Some a) (R a) r"
    by auto
  from Nd.IH(1)[OF l] Nd.IH(2)[OF r] Nd.prems(2)
  have "copt C (L a) = int (length (filter Pr (inorder l)))"
    "copt C (R a) = int (length (filter Pr (inorder r)))" by auto
  moreover from Nd.prems(2) have "C a = count_at L R C Pr a" by simp
  ultimately show ?case using p by (simp add: count_at_def)
qed

lemma binv_length:
  assumes "binv s t"
  shows "length_t s = int (length (filter (pr s) (inorder t)))"
    "length_t s = int (card {a. a < ncount s \<and> isPresent (nodes s a)})"
proof -
  from assms have pt: "ptree (bl s) (br s) (bp s) None (Some (bRootNode s)) t"
    and d: "distinct (inorder t)" and n: "nodes_of t = {..<ncount s}"
    and c: "counts_ok (ncount s) (bl s) (br s) (bc s) (pr s)"
    by (auto simp: binv_def bt_def btree_def cwf_def)
  from c n have "\<forall>a\<in>nodes_of t. bc s a = count_at (bl s) (br s) (bc s) (pr s) a"
    by (auto simp: counts_ok_def)
  from ptree_count[OF pt this]
  show 1: "length_t s = int (length (filter (pr s) (inorder t)))"
    by (simp add: length_t_def bc_def)
  have "{x. pr s x} \<inter> set (inorder t) = {a. a < ncount s \<and> isPresent (nodes s a)}"
    using n by (auto simp: pr_def)
  with distinct_length_filter[OF d, of "pr s"] 1
  show "length_t s = int (card {a. a < ncount s \<and> isPresent (nodes s a)})" by simp
qed

text \<open>
  C5: in every reachable state every node's \<open>bCount\<close> is the sum of its children's
  counts (0 for a missing child) and 1 if the node is present, and the \<open>length\<close>
  getter is the number of present nodes.
\<close>

theorem C5_counts_correct:
  assumes "reachable s"
  shows "(\<forall>a<ncount s. bCount (nodes s a) =
            bCount_opt s (bLeftChild (nodes s a)) + (if isPresent (nodes s a) then 1 else 0) +
            bCount_opt s (bRightChild (nodes s a))) \<and>
         length_t s = int (card {a. a < ncount s \<and> isPresent (nodes s a)})"
proof -
  from reachable_inv[OF assms] obtain t where b: "binv s t" by (auto simp: wf_state_def)
  then have "counts_ok (ncount s) (bl s) (br s) (bc s) (pr s)" by (simp add: binv_def cwf_def)
  then have "\<forall>a<ncount s. bCount (nodes s a) =
            bCount_opt s (bLeftChild (nodes s a)) + (if isPresent (nodes s a) then 1 else 0) +
            bCount_opt s (bRightChild (nodes s a))"
    by (simp add: counts_ok_def count_at_def bCount_opt_copt bc_def bl_def br_def pr_def)
  with binv_length(2)[OF b] show ?thesis by blast
qed

theorem C5_counts_correct_witness:
  "\<exists>s e. receivePrimitive init_state (InsertMessage ''a1'' [] False ''A'') () = Some (Inr (s, e)) \<and>
     reachable s \<and>
     bCount (nodes s 0) =
       bCount_opt s (bLeftChild (nodes s 0)) + (if isPresent (nodes s 0) then 1 else 0) +
       bCount_opt s (bRightChild (nodes s 0)) \<and>
     length_t s = int (card {a. a < ncount s \<and> isPresent (nodes s a)})"
proof -
  have "case receivePrimitive init_state (InsertMessage ''a1'' [] False ''A'') () of
          Some (Inr (s, e)) \<Rightarrow> 0 < ncount s | _ \<Rightarrow> False"
    by (simp add: eval_defs cong: bindR_weak_cong let_weak_cong)
  then obtain s e where
    r: "receivePrimitive init_state (InsertMessage ''a1'' [] False ''A'') () = Some (Inr (s, e))"
    and n: "0 < ncount s"
    by (auto split: option.splits sum.splits)
  have re: "reachable s"
    by (rule reachable_insert[OF reachable_init _ _ r]) (simp_all add: init_state_def)
  from C5_counts_correct[OF re] n r re show ?thesis by blast
qed


section \<open>The text of a replica (claim C10)\<close>

definition pvals :: "state \<Rightarrow> tr \<Rightarrow> string list" where
  "pvals s t = map (valv s) (filter (pr s) (inorder t))"

lemma pvals_simps [simp]:
  "pvals s Lf = []"
  "pvals s (Nd l a r) = pvals s l @ (if pr s a then [valv s a] else []) @ pvals s r"
  by (simp_all add: pvals_def)

text \<open>
  One traversal of a subtree: entered from its parent, the walk leaves the subtree
  to the parent, having pushed the values of the present nodes of the subtree in
  order.
\<close>

lemma toString_walk_subtree:
  assumes "ptree (bl s) (br s) (bp s) par (Some n) u" "distinct (inorder u)"
    and "\<forall>a\<in>nodes_of u. bc s a = count_at (bl s) (br s) (bc s) (pr s) a"
  shows "toString_walk s (Some n) PARENT vals =
         toString_walk s par (if bIsLeftChild s n then LEFT_CHILD else RIGHT_CHILD)
           (vals @ map Some (pvals s u))"
  using assms
proof (induction u arbitrary: n par vals)
  case Lf
  then show ?case by simp
next
  case (Nd l a r)
  from Nd.prems(1) have n: "n = a" and P: "bp s a = par"
    and pl: "ptree (bl s) (br s) (bp s) (Some a) (bl s a) l"
    and pr': "ptree (bl s) (br s) (bp s) (Some a) (br s a) r"
    by auto
  from Nd.prems(2) have d: "distinct (inorder l)" "distinct (inorder r)"
    "nodes_of l \<inter> nodes_of r = {}" by auto
  from Nd.prems(3) have cl: "\<forall>x\<in>nodes_of l. bc s x = count_at (bl s) (br s) (bc s) (pr s) x"
    and cr: "\<forall>x\<in>nodes_of r. bc s x = count_at (bl s) (br s) (bc s) (pr s) x" by auto
  note kl = ptree_count[OF pl cl] and kr = ptree_count[OF pr' cr]
  have left: "toString_walk s (Some a) PARENT vals =
              toString_walk s (Some a) LEFT_CHILD (vals @ map Some (pvals s l))"
  proof (cases "bl s a")
    case None
    with pl have "l = Lf" by simp
    with None show ?thesis by (subst toString_walk.simps) (simp add: bl_def)
  next
    case (Some lc)
    with pl have plc: "ptree (bl s) (br s) (bp s) (Some a) (Some lc) l" by simp
    then have "bp s lc = Some a" by (auto simp: ptree_Some)
    with Some have il: "bIsLeftChild s lc" by (simp add: bIsLeftChild_def bp_def bl_def)
    show ?thesis
    proof (cases "bc s lc = 0")
      case True
      with kl Some have "pvals s l = []" by (simp add: pvals_def)
      with True Some show ?thesis by (subst toString_walk.simps) (simp add: bl_def bc_def)
    next
      case False
      with Some have "toString_walk s (Some a) PARENT vals = toString_walk s (Some lc) PARENT vals"
        by (subst toString_walk.simps) (simp add: bl_def bc_def)
      with Nd.IH(1)[OF plc d(1) cl, of vals] il show ?thesis by simp
    qed
  qed
  let ?own = "if pr s a then [valv s a] else []"
  have mid: "toString_walk s (Some a) LEFT_CHILD vals' =
             toString_walk s (Some a) RIGHT_CHILD (vals' @ map Some ?own @ map Some (pvals s r))"
    for vals'
  proof (cases "br s a")
    case None
    with pr' have "r = Lf" by simp
    with None show ?thesis
      by (subst toString_walk.simps) (simp add: br_def pr_def valv_def)
  next
    case (Some rc)
    with pr' have prc: "ptree (bl s) (br s) (bp s) (Some a) (Some rc) r" by simp
    then have par: "bp s rc = Some a" and rcr: "rc \<in> nodes_of r" by (auto simp: ptree_Some)
    have "bl s a \<noteq> Some rc"
    proof
      assume "bl s a = Some rc"
      with pl have "rc \<in> nodes_of l" by (auto simp: ptree_Some)
      with rcr d(3) show False by auto
    qed
    with par have il: "\<not> bIsLeftChild s rc" by (simp add: bIsLeftChild_def bp_def bl_def)
    show ?thesis
    proof (cases "bc s rc = 0")
      case True
      with kr Some have "pvals s r = []" by (simp add: pvals_def)
      with True Some show ?thesis
        by (subst toString_walk.simps) (simp add: br_def bc_def pr_def valv_def)
    next
      case False
      with Some have "toString_walk s (Some a) LEFT_CHILD vals' =
          toString_walk s (Some rc) PARENT (vals' @ map Some ?own)"
        by (subst toString_walk.simps) (simp add: br_def bc_def pr_def valv_def)
      with Nd.IH(2)[OF prc d(2) cr, of "vals' @ map Some ?own"] il show ?thesis by simp
    qed
  qed
  have up: "toString_walk s (Some a) RIGHT_CHILD vals' =
            toString_walk s par (if bIsLeftChild s a then LEFT_CHILD else RIGHT_CHILD) vals'"
    for vals'
    using P by (subst toString_walk.simps) (simp add: bp_def)
  show ?case unfolding n left mid up by simp
qed

lemma join_values_pushed:
  "join_values (replicate k None @ map Some xs) = concat xs"
  by (induction k) (simp_all add: join_values_def comp_def)

lemma length_concat_units:
  "\<forall>x\<in>set xs. length x = 1 \<Longrightarrow> length (concat xs) = length xs"
  by (induction xs) auto

lemma toString_binv:
  assumes "binv s t" "vals_ok s"
  shows "toString s = Some (Inr (concat (pvals s t)))"
    "int (length (concat (pvals s t))) = length_t s"
proof -
  from assms have pt: "ptree (bl s) (br s) (bp s) None (Some (bRootNode s)) t"
    and d: "distinct (inorder t)" and n: "nodes_of t = {..<ncount s}"
    and c: "counts_ok (ncount s) (bl s) (br s) (bc s) (pr s)"
    by (auto simp: binv_def bt_def btree_def cwf_def)
  from c n have ca: "\<forall>a\<in>nodes_of t. bc s a = count_at (bl s) (br s) (bc s) (pr s) a"
    by (auto simp: counts_ok_def)
  have w: "toString_walk s (Some (bRootNode s)) PARENT vals = Some (Inr (vals @ map Some (pvals s t)))"
    for vals
    unfolding toString_walk_subtree[OF pt d ca]
    by (subst toString_walk.simps) (simp add: ok_def)
  from assms(2) n have "\<forall>x\<in>set (pvals s t). length x = 1"
    by (auto simp: vals_ok_def pvals_def)
  from length_concat_units[OF this]
  have "length (concat (pvals s t)) = length (filter (pr s) (inorder t))"
    by (simp add: pvals_def)
  with binv_length(1)[OF assms(1)]
  show len: "int (length (concat (pvals s t))) = length_t s" by simp
  then have "0 \<le> length_t s" by linarith
  with len show "toString s = Some (Inr (concat (pvals s t)))"
    by (simp add: toString_def w join_values_pushed ok_def)
qed

text \<open>
  C10: in every reachable state \<open>toString()\<close> returns a string whose length is the
  \<open>length\<close> getter (so the ``wrong length'' branch is not taken).
\<close>

theorem C10_toString_length:
  assumes "reachable s"
  shows "\<exists>ans. toString s = Some (Inr ans) \<and> int (length ans) = length_t s"
proof -
  from reachable_inv[OF assms] obtain t where "binv s t" "vals_ok s"
    by (auto simp: wf_state_def)
  from toString_binv[OF this] show ?thesis by blast
qed

theorem C10_toString_length_witness:
  "\<exists>s e ans. receivePrimitive init_state (InsertMessage ''a1'' [] False ''A'') () = Some (Inr (s, e)) \<and>
     reachable s \<and> toString s = Some (Inr ans) \<and> int (length ans) = length_t s"
proof -
  have "case receivePrimitive init_state (InsertMessage ''a1'' [] False ''A'') () of
          Some (Inr (s, e)) \<Rightarrow> True | _ \<Rightarrow> False"
    by (simp add: eval_defs cong: bindR_weak_cong let_weak_cong)
  then obtain s e where
    r: "receivePrimitive init_state (InsertMessage ''a1'' [] False ''A'') () = Some (Inr (s, e))"
    by (auto split: option.splits sum.splits)
  have re: "reachable s"
    by (rule reachable_insert[OF reachable_init _ _ r]) (simp_all add: init_state_def)
  from C10_toString_length[OF re] r re show ?thesis by blast
qed


section \<open>Indices and nodes (claim C4)\<close>

text \<open>
  Over the tree of the balanced index: the number of present nodes, the present
  node with a given index, and the number of present nodes before a node.
\<close>

definition cnt :: "(nat \<Rightarrow> bool) \<Rightarrow> tr \<Rightarrow> nat" where
  "cnt Pr t = length (filter Pr (inorder t))"

fun sel :: "(nat \<Rightarrow> bool) \<Rightarrow> tr \<Rightarrow> nat \<Rightarrow> nat" where
  "sel Pr Lf i = 0"
| "sel Pr (Nd l a r) i =
     (if i < cnt Pr l then sel Pr l i
      else if Pr a \<and> i = cnt Pr l then a
      else sel Pr r (i - cnt Pr l - (if Pr a then 1 else 0)))"

fun idx :: "(nat \<Rightarrow> bool) \<Rightarrow> tr \<Rightarrow> nat \<Rightarrow> nat" where
  "idx Pr Lf x = 0"
| "idx Pr (Nd l a r) x =
     (if x = a then cnt Pr l
      else if x \<in> nodes_of l then idx Pr l x
      else cnt Pr l + (if Pr a then 1 else 0) + idx Pr r x)"

lemma cnt_simps [simp]:
  "cnt Pr Lf = 0"
  "cnt Pr (Nd l a r) = cnt Pr l + (if Pr a then 1 else 0) + cnt Pr r"
  by (simp_all add: cnt_def)

lemma sel_in: "i < cnt Pr t \<Longrightarrow> sel Pr t i \<in> nodes_of t \<and> Pr (sel Pr t i)"
proof (induction t arbitrary: i)
  case Lf
  then show ?case by simp
next
  case (Nd l a r)
  show ?case
  proof (cases "i < cnt Pr l")
    case True
    with Nd.IH(1)[of i] show ?thesis by simp
  next
    case False
    show ?thesis
    proof (cases "Pr a \<and> i = cnt Pr l")
      case True
      with False show ?thesis by simp
    next
      case F2: False
      with False Nd.prems have "i - cnt Pr l - (if Pr a then 1 else 0) < cnt Pr r"
        by (auto split: if_splits)
      from Nd.IH(2)[OF this] False F2 show ?thesis by simp
    qed
  qed
qed

lemma idx_sel:
  "distinct (inorder t) \<Longrightarrow> i < cnt Pr t \<Longrightarrow> idx Pr t (sel Pr t i) = i"
proof (induction t arbitrary: i)
  case Lf
  then show ?case by simp
next
  case (Nd l a r)
  from Nd.prems(1) have d: "distinct (inorder l)" "distinct (inorder r)"
    "a \<notin> nodes_of l" "a \<notin> nodes_of r" "nodes_of l \<inter> nodes_of r = {}" by auto
  show ?case
  proof (cases "i < cnt Pr l")
    case True
    from sel_in[OF True] d have "sel Pr l i \<noteq> a" "sel Pr l i \<in> nodes_of l" by auto
    with True Nd.IH(1)[OF d(1) True] show ?thesis by simp
  next
    case False
    show ?thesis
    proof (cases "Pr a \<and> i = cnt Pr l")
      case True
      with False show ?thesis by simp
    next
      case F2: False
      let ?j = "i - cnt Pr l - (if Pr a then 1 else 0)"
      from F2 False Nd.prems(2) have j: "?j < cnt Pr r" by (auto split: if_splits)
      from sel_in[OF j] d have "sel Pr r ?j \<noteq> a" "sel Pr r ?j \<notin> nodes_of l" by auto
      with False F2 Nd.IH(2)[OF d(2) j] show ?thesis by (auto split: if_splits)
    qed
  qed
qed

lemma ptree_cnt:
  assumes "ptree (bl s) (br s) (bp s) par p t"
    "\<forall>a\<in>nodes_of t. bc s a = count_at (bl s) (br s) (bc s) (pr s) a"
  shows "copt (bc s) p = int (cnt (pr s) t)"
  using ptree_count[OF assms] by (simp add: cnt_def)

lemma indexToNode_loop_sel:
  assumes "ptree (bl s) (br s) (bp s) par (Some n) u"
    and "\<forall>a\<in>nodes_of u. bc s a = count_at (bl s) (br s) (bc s) (pr s) a"
    and "0 \<le> rem" "rem < int (cnt (pr s) u)"
  shows "indexToNode_loop s rem n = Some (Inr (sel (pr s) u (nat rem)))"
  using assms
proof (induction u arbitrary: n par rem)
  case Lf
  then show ?case by simp
next
  case (Nd l a r)
  from Nd.prems(1) have n: "n = a"
    and pl: "ptree (bl s) (br s) (bp s) (Some a) (bl s a) l"
    and pr': "ptree (bl s) (br s) (bp s) (Some a) (br s a) r"
    by auto
  from Nd.prems(2) have cl: "\<forall>x\<in>nodes_of l. bc s x = count_at (bl s) (br s) (bc s) (pr s) x"
    and cr: "\<forall>x\<in>nodes_of r. bc s x = count_at (bl s) (br s) (bc s) (pr s) x" by auto
  note kl = ptree_cnt[OF pl cl] and kr = ptree_cnt[OF pr' cr]
  let ?cl = "cnt (pr s) l" and ?cr = "cnt (pr s) r"
  show ?case
  proof (cases "rem < int ?cl")
    case True
    with Nd.prems(3) kl obtain lc where lc: "bl s a = Some lc" by (cases "bl s a") auto
    with kl have bl: "bc s lc = int ?cl" by simp
    from pl lc have plc: "ptree (bl s) (br s) (bp s) (Some a) (Some lc) l" by simp
    from True lc bl have "indexToNode_loop s rem a = indexToNode_loop s rem lc"
      by (subst indexToNode_loop.simps) (simp add: bl_def bc_def)
    with Nd.IH(1)[OF plc cl Nd.prems(3) True] True Nd.prems(3) n show ?thesis
      by (simp add: nat_less_iff)
  next
    case False
    then have ge: "int ?cl \<le> rem" by simp
    have cont: "(case bLeftChild (nodes s a) of None \<Rightarrow> None
                | Some child \<Rightarrow> if rem < bCount (nodes s child) then Some child else None) = None"
      using kl ge by (cases "bl s a") (auto simp: bl_def bc_def)
    have bo: "bCount_opt s (bLeftChild (nodes s a)) = int ?cl"
      using kl by (simp add: bCount_opt_copt bl_def)
    show ?thesis
    proof (cases "pr s a \<and> rem = int ?cl")
      case True
      then have "indexToNode_loop s rem a = Some (Inr a)"
        by (subst indexToNode_loop.simps) (simp add: cont bo pr_def Let_def ok_def)
      with True False n show ?thesis by (simp add: nat_less_iff)
    next
      case F2: False
      let ?rem' = "rem - int ?cl - (if pr s a then 1 else 0)"
      from F2 ge Nd.prems(4) have r0: "0 \<le> ?rem'" and r1: "?rem' < int ?cr"
        by (auto split: if_splits)
      from r0 r1 kr obtain rc where rc: "br s a = Some rc" by (cases "br s a") auto
      with kr have brc: "bc s rc = int ?cr" by simp
      from pr' rc have prc: "ptree (bl s) (br s) (bp s) (Some a) (Some rc) r" by simp
      from F2 rc brc r1 have "indexToNode_loop s rem a = indexToNode_loop s ?rem' rc"
        by (subst indexToNode_loop.simps)
          (auto simp: cont bo pr_def Let_def br_def bc_def)
      moreover have "sel (pr s) (Nd l a r) (nat rem) = sel (pr s) r (nat ?rem')"
      proof -
        have 1: "nat ?rem' = nat rem - ?cl - (if pr s a then 1 else 0)"
          using ge r0 by (auto simp: nat_diff_distrib)
        have 2: "\<not> nat rem < ?cl" using ge Nd.prems(3) by linarith
        have 3: "\<not> (pr s a \<and> nat rem = ?cl)" using F2 Nd.prems(3) by auto
        have "sel (pr s) (Nd l a r) (nat rem) =
              sel (pr s) r (nat rem - ?cl - (if pr s a then 1 else 0))"
          using 2 3 by (cases "pr s a") auto
        then show ?thesis by (simp only: 1)
      qed
      ultimately show ?thesis using Nd.IH(2)[OF prc cr r0 r1] n by simp
    qed
  qed
qed

lemma nodeToIndex_loop_idx:
  assumes "ptree (bl s) (br s) (bp s) par (Some n) u" "distinct (inorder u)"
    and "\<forall>a\<in>nodes_of u. bc s a = count_at (bl s) (br s) (bc s) (pr s) a"
    and "x \<in> nodes_of u"
  shows "nodeToIndex_loop s x (bp s x) (g + copt (bc s) (bl s x)) =
         nodeToIndex_loop s n par (g + int (idx (pr s) u x))"
  using assms
proof (induction u arbitrary: n par)
  case Lf
  then show ?case by simp
next
  case (Nd l a r)
  from Nd.prems(1) have n: "n = a" and P: "bp s a = par"
    and pl: "ptree (bl s) (br s) (bp s) (Some a) (bl s a) l"
    and pr': "ptree (bl s) (br s) (bp s) (Some a) (br s a) r"
    by auto
  from Nd.prems(2) have d: "distinct (inorder l)" "distinct (inorder r)"
    "a \<notin> nodes_of l" "a \<notin> nodes_of r" "nodes_of l \<inter> nodes_of r = {}" by auto
  from Nd.prems(3) have cl: "\<forall>x\<in>nodes_of l. bc s x = count_at (bl s) (br s) (bc s) (pr s) x"
    and cr: "\<forall>x\<in>nodes_of r. bc s x = count_at (bl s) (br s) (bc s) (pr s) x" by auto
  note kl = ptree_cnt[OF pl cl]
  consider (root) "x = a" | (left) "x \<in> nodes_of l" | (right) "x \<in> nodes_of r"
    using Nd.prems(4) by auto
  then show ?case
  proof cases
    case root
    with kl P n show ?thesis by simp
  next
    case left
    then obtain lc where lc: "bl s a = Some lc" using pl by (cases "bl s a") auto
    with pl have plc: "ptree (bl s) (br s) (bp s) (Some a) (Some lc) l" by simp
    then have "bp s lc = Some a" by (auto simp: ptree_Some)
    with lc have il: "bIsLeftChild s lc" by (simp add: bIsLeftChild_def bp_def bl_def)
    have "nodeToIndex_loop s lc (Some a) g' = nodeToIndex_loop s a par g'" for g'
      using il P by (subst nodeToIndex_loop.simps) (simp add: bp_def)
    with Nd.IH(1)[OF plc d(1) cl left] left d n show ?thesis by auto
  next
    case right
    then obtain rc where rc: "br s a = Some rc" using pr' by (cases "br s a") auto
    with pr' have prc: "ptree (bl s) (br s) (bp s) (Some a) (Some rc) r" by simp
    then have par: "bp s rc = Some a" and rcr: "rc \<in> nodes_of r" by (auto simp: ptree_Some)
    have "bl s a \<noteq> Some rc"
    proof
      assume "bl s a = Some rc"
      with pl have "rc \<in> nodes_of l" by (auto simp: ptree_Some)
      with rcr d(5) show False by auto
    qed
    with par have il: "\<not> bIsLeftChild s rc" by (simp add: bIsLeftChild_def bp_def bl_def)
    have "nodeToIndex_loop s rc (Some a) g' =
          nodeToIndex_loop s a par (g' + int (cnt (pr s) l) + (if pr s a then 1 else 0))" for g'
      using il P kl
      by (subst nodeToIndex_loop.simps) (simp add: bp_def bCount_opt_copt bl_def pr_def)
    with Nd.IH(2)[OF prc d(2) cr right] right d n show ?thesis
      by (auto simp: algebra_simps)
  qed
qed

lemma nodeToIndex_binv:
  assumes "binv s t" "x < ncount s"
  shows "nodeToIndex s x = Some (Inr (int (idx (pr s) t x), pr s x))"
proof -
  from assms have pt: "ptree (bl s) (br s) (bp s) None (Some (bRootNode s)) t"
    and d: "distinct (inorder t)" and n: "nodes_of t = {..<ncount s}"
    and c: "counts_ok (ncount s) (bl s) (br s) (bc s) (pr s)"
    by (auto simp: binv_def bt_def btree_def cwf_def)
  from c n have ca: "\<forall>a\<in>nodes_of t. bc s a = count_at (bl s) (br s) (bc s) (pr s) a"
    by (auto simp: counts_ok_def)
  from assms(2) n have x: "x \<in> nodes_of t" by simp
  have "nodeToIndex_loop s (bRootNode s) None g = Some (Inr g)" for g
    by (subst nodeToIndex_loop.simps) (simp add: ok_def)
  with nodeToIndex_loop_idx[OF pt d ca x, of 0]
  have "nodeToIndex_loop s x (bp s x) (copt (bc s) (bl s x)) = Some (Inr (int (idx (pr s) t x)))"
    by simp
  then show ?thesis
    by (simp add: nodeToIndex_def bCount_opt_copt bp_def bl_def pr_def ok_def)
qed

lemma indexToNode_binv:
  assumes "binv s t" "0 \<le> i" "i < length_t s"
  shows "indexToNode s i = Some (Inr (sel (pr s) t (nat i)))"
    "sel (pr s) t (nat i) < ncount s" "pr s (sel (pr s) t (nat i))"
    "idx (pr s) t (sel (pr s) t (nat i)) = nat i"
proof -
  from assms have pt: "ptree (bl s) (br s) (bp s) None (Some (bRootNode s)) t"
    and d: "distinct (inorder t)" and n: "nodes_of t = {..<ncount s}"
    and c: "counts_ok (ncount s) (bl s) (br s) (bc s) (pr s)"
    by (auto simp: binv_def bt_def btree_def cwf_def)
  from c n have ca: "\<forall>a\<in>nodes_of t. bc s a = count_at (bl s) (br s) (bc s) (pr s) a"
    by (auto simp: counts_ok_def)
  from binv_length(1)[OF assms(1)] assms(3) have i: "i < int (cnt (pr s) t)"
    by (simp add: cnt_def)
  from indexToNode_loop_sel[OF pt ca assms(2) i] assms(2,3)
  show "indexToNode s i = Some (Inr (sel (pr s) t (nat i)))"
    by (simp add: indexToNode_def)
  from i assms(2) have i': "nat i < cnt (pr s) t" by linarith
  from sel_in[OF i'] n show "sel (pr s) t (nat i) < ncount s" "pr s (sel (pr s) t (nat i))"
    by auto
  from idx_sel[OF d i'] show "idx (pr s) t (sel (pr s) t (nat i)) = nat i" .
qed

text \<open>
  C4: in every reachable state, for every index \<open>i\<close> with \<open>0 \<le> i < length\<close>,
  \<open>indexToNode(i)\<close> returns a node and \<open>nodeToIndex\<close> of it returns \<open>(i, true)\<close>;
  and \<open>getPosition(i)\<close> returns a position and \<open>findPosition\<close> of it returns
  \<open>(i, true)\<close>.
\<close>

theorem C4_index_round_trip:
  assumes "reachable s" "0 \<le> i" "i < length_t s"
  shows "(\<exists>a. indexToNode s i = Some (Inr a) \<and> nodeToIndex s a = Some (Inr (i, True))) \<and>
         (\<exists>p. getPosition s i = Some (Inr p) \<and> findPosition s p = Some (Inr (i, True)))"
proof -
  from reachable_inv[OF assms(1)] obtain t where b: "binv s t" and d: "dir_ok s"
    by (auto simp: wf_state_def)
  let ?a = "sel (pr s) t (nat i)"
  note it = indexToNode_binv[OF b assms(2,3)]
  from nodeToIndex_binv[OF b it(2)] it(3,4) assms(2)
  have ni: "nodeToIndex s ?a = Some (Inr (i, True))" by simp
  from d it(2) have "nodesByID s (idv s ?a) = Some ?a" by (simp add: dir_ok_def)
  with ni have "getPosition s i = Some (Inr (idv s ?a))"
    "findPosition s (idv s ?a) = Some (Inr (i, True))"
    by (simp_all add: getPosition_def findPosition_def it(1) ok_def idv_def)
  with it(1) ni show ?thesis by blast
qed

theorem C4_index_round_trip_witness:
  "\<exists>s e. receivePrimitive init_state (InsertMessage ''a1'' [] False ''A'') () = Some (Inr (s, e)) \<and>
     reachable s \<and> (0::int) < length_t s \<and>
     (\<exists>a. indexToNode s 0 = Some (Inr a) \<and> nodeToIndex s a = Some (Inr (0, True))) \<and>
     (\<exists>p. getPosition s 0 = Some (Inr p) \<and> findPosition s p = Some (Inr (0, True)))"
proof -
  have "case receivePrimitive init_state (InsertMessage ''a1'' [] False ''A'') () of
          Some (Inr (s, e)) \<Rightarrow> 0 < length_t s | _ \<Rightarrow> False"
    by (simp add: eval_defs cong: bindR_weak_cong let_weak_cong)
  then obtain s e where
    r: "receivePrimitive init_state (InsertMessage ''a1'' [] False ''A'') () = Some (Inr (s, e))"
    and n: "0 < length_t s"
    by (auto split: option.splits sum.splits)
  have re: "reachable s"
    by (rule reachable_insert[OF reachable_init _ _ r]) (simp_all add: init_state_def)
  from C4_index_round_trip[OF re _ n] n r re show ?thesis by blast
qed


section \<open>Deleting twice (claim C9)\<close>

text \<open>
  \<open>bpath P a xs\<close>: following the parent links \<open>P\<close> from \<open>a\<close> visits the nodes \<open>xs\<close>
  and ends at a node without parent. From a node of the balanced index, these are
  the node and its balanced ancestors.
\<close>

inductive bpath :: "(nat \<Rightarrow> nat option) \<Rightarrow> nat option \<Rightarrow> nat list \<Rightarrow> bool" where
  bpath_None: "bpath P None []"
| bpath_Some: "bpath P (P a) xs \<Longrightarrow> bpath P (Some a) (a # xs)"

lemma add_bCount_path:
  assumes "add_bCount s anc d = Some (Inr s')"
  shows "\<exists>xs. bpath (bp s) anc xs \<and> (\<forall>a. bc s' a = bc s a + int (count_list xs a) * d)"
proof -
  have "\<forall>s'. r = Inr s' \<longrightarrow>
          (\<exists>xs. bpath (bp s) anc xs \<and> (\<forall>a. bc s' a = bc s a + int (count_list xs a) * d))"
    if h: "add_bCount s anc d = Some r" for s anc d r
  proof (rule add_bCount.raw_induct[where P = "\<lambda>s anc d r. \<forall>s'. r = Inr s' \<longrightarrow>
          (\<exists>xs. bpath (bp s) anc xs \<and> (\<forall>a. bc s' a = bc s a + int (count_list xs a) * d))",
        OF _ h], goal_cases)
    case (1 f s anc d r)
    note IH = 1(1) and eq = 1(2)
    show ?case
    proof (intro allI impI)
      fix s' assume r: "r = Inr s'"
      show "\<exists>xs. bpath (bp s) anc xs \<and> (\<forall>a. bc s' a = bc s a + int (count_list xs a) * d)"
      proof (cases anc)
        case None
        with eq r have "s' = s" by (simp add: ok_def)
        with None show ?thesis by (auto intro: bpath.intros)
      next
        case (Some x)
        let ?s1 = "upd s x (\<lambda>n. n\<lparr>bCount := bCount n + d\<rparr>)"
        from eq r Some have "f ?s1 (bp s x) d = Some (Inr s')" by (simp add: bp_def)
        from IH[OF this, rule_format, OF refl] obtain xs where
          p: "bpath (bp s) (bp s x) xs"
          and c: "\<And>a. bc s' a = bc ?s1 a + int (count_list xs a) * d"
          by auto
        have "bc s' a = bc s a + int (count_list (x # xs) a) * d" for a
          using c[of a] by (simp add: bc_def[of s x] algebra_simps)
        with p Some show ?thesis by (auto intro: bpath.intros)
      qed
    qed
  qed
  with assms show ?thesis by blast
qed

lemma bpath_ranked:
  assumes "bpath P anc xs" "ranked K P rank" "\<forall>a<K. optlt (P a) K" "optlt anc K"
  shows "distinct xs \<and> (\<forall>x\<in>set xs. x < K \<and> (\<forall>a. anc = Some a \<longrightarrow> rank x \<le> rank a))"
  using assms
proof (induction rule: bpath.induct)
  case (bpath_None P)
  then show ?case by simp
next
  case (bpath_Some P a xs)
  from bpath_Some.prems(3) have a: "a < K" by simp
  with bpath_Some.prems(2) have o: "optlt (P a) K" by simp
  from bpath_Some.IH[OF bpath_Some.prems(1,2) o]
  have d: "distinct xs" and b: "\<forall>x\<in>set xs. x < K \<and> (\<forall>p. P a = Some p \<longrightarrow> rank x \<le> rank p)"
    by auto
  have "rank x < rank a" if "x \<in> set xs" for x
  proof -
    from that bpath_Some.hyps obtain p where p: "P a = Some p"
      by (cases "P a") (auto elim: bpath.cases)
    from rankedD[OF bpath_Some.prems(1) a p] b that p show ?thesis by force
  qed
  with d b a show ?case by (auto simp: less_le)
qed

text \<open>The count walk returns, in the balanced index.\<close>

lemma add_bCount_total:
  assumes "ranked K (bp s) rank" "\<forall>a<K. optlt (bp s a) K" "optlt anc K"
  shows "\<exists>s'. add_bCount s anc d = Some (Inr s')"
proof (cases anc)
  case None
  then show ?thesis by (subst add_bCount.simps) (simp add: ok_def)
next
  case (Some a0)
  have "\<forall>s. bp s = P \<longrightarrow> (\<exists>s'. add_bCount s (Some a) d = Some (Inr s'))"
    if "ranked K P rank" "\<forall>a<K. optlt (P a) K" "a < K" for a P
    using that
  proof (induction "rank a" arbitrary: a rule: less_induct)
    case less
    show ?case
    proof (intro allI impI)
      fix s assume P: "bp s = P"
      let ?s1 = "upd s a (\<lambda>n. n\<lparr>bCount := bCount n + d\<rparr>)"
      have e: "add_bCount s (Some a) d = add_bCount ?s1 (P a) d"
        by (subst add_bCount.simps) (simp add: P[symmetric] bp_def)
      show "\<exists>s'. add_bCount s (Some a) d = Some (Inr s')"
      proof (cases "P a")
        case None
        then show ?thesis unfolding e by (subst add_bCount.simps) (simp add: ok_def)
      next
        case (Some p)
        from less.prems(2,3) Some have p: "p < K" by force
        from rankedD[OF less.prems(1,3) Some] have "rank p < rank a" .
        from less.hyps[OF this less.prems(1,2) p, rule_format, of ?s1] P Some
        show ?thesis unfolding e by simp
      qed
    qed
  qed
  from this[OF assms(1,2), of a0] assms(3) Some show ?thesis by simp
qed


lemma receive_delete_present:
  assumes w: "wf_state s" and node: "nodesByID s i = Some node" and p: "isPresent (nodes s node)"
  shows "\<exists>s1 e1 xs. receive_delete s i meta = Some (Inr (s1, Some e1)) \<and>
           bpath (bp s) (Some node) xs \<and>
           s1 = s\<lparr> nodes := \<lambda>a. (nodes s a)\<lparr> isPresent := isPresent (nodes s a) \<and> a \<noteq> node,
                     bCount := bCount (nodes s a) - (if a \<in> set xs then 1 else 0) \<rparr> \<rparr>"
proof -
  from w obtain t where b: "binv s t" and d: "dir_ok s" by (auto simp: wf_state_def)
  from d node have nK: "node < ncount s" by (auto simp: dir_ok_def)
  from b have g: "bgraph (ncount s) (bRootNode s) (bl s) (br s) (bp s)"
    by (auto simp: binv_def bt_def intro: btree_bgraph)
  obtain rank where rk: "ranked (ncount s) (bp s) rank" using bgraph_rank[OF g] .
  have cl: "\<forall>a<ncount s. optlt (bp s a) (ncount s)" using bgraph_closed(1)[OF g] by simp
  let ?s0 = "upd s node (\<lambda>n. n\<lparr>isPresent := False\<rparr>)"
  have bp0: "bp ?s0 = bp s" by simp
  from add_bCount_total[of "ncount s" ?s0 rank "Some node" "- 1"] rk cl nK
  obtain s1 where ab: "add_bCount ?s0 (Some node) (- 1) = Some (Inr s1)"
    by (auto simp: bp0)
  from nodeToIndex_binv[OF b nK]
  have r: "receive_delete s i meta =
      Some (Inr (s1, Some (DeleteEvent (int (idx (pr s) t node)) 1 (value_n (nodes s1 node)) meta)))"
    using node p ab by (simp add: receive_delete_def ok_def Let_def)
  from add_bCount_path[OF ab] obtain xs where
    xs: "bpath (bp s) (Some node) xs"
    and c: "\<And>a. bc s1 a = bc ?s0 a + int (count_list xs a) * (- 1)"
    by (auto simp: bp0)
  from bpath_ranked[OF xs rk cl] nK have dx: "distinct xs" by simp
  have "distinct ys \<Longrightarrow> int (count_list ys a) = (if a \<in> set ys then 1 else 0)" for ys a
    by (induction ys) auto
  from this[OF dx] have cnt1: "int (count_list xs a) = (if a \<in> set xs then 1 else 0)" for a .
  from add_bCount_frame[OF ab] have fr: "s1 = ?s0\<lparr> nodes := nodes s1 \<rparr>"
    and fn: "\<And>a. nodes s1 a = (nodes ?s0 a)\<lparr> bCount := bCount (nodes s1 a) \<rparr>"
    by auto
  have "nodes s1 a = (nodes s a)\<lparr> isPresent := isPresent (nodes s a) \<and> a \<noteq> node,
                     bCount := bCount (nodes s a) - (if a \<in> set xs then 1 else 0) \<rparr>" for a
  proof -
    have "bCount (nodes s1 a) = bCount (nodes s a) - (if a \<in> set xs then 1 else 0)"
      using c[of a] cnt1[of a] by (simp add: bc_def upd_def)
    with fn[of a] show ?thesis by (cases "a = node") (simp_all add: upd_def)
  qed
  then have "nodes s1 = (\<lambda>a. (nodes s a)\<lparr> isPresent := isPresent (nodes s a) \<and> a \<noteq> node,
                     bCount := bCount (nodes s a) - (if a \<in> set xs then 1 else 0) \<rparr>)"
    by (simp add: fun_eq_iff)
  with fr have "s1 = s\<lparr> nodes := \<lambda>a. (nodes s a)\<lparr> isPresent := isPresent (nodes s a) \<and> a \<noteq> node,
                     bCount := bCount (nodes s a) - (if a \<in> set xs then 1 else 0) \<rparr> \<rparr>"
    by (simp add: upd_def)
  with r xs show ?thesis by blast
qed

text \<open>
  C9: in a reachable state that knows the identifier, the handler of a delete
  message returns, and handling the same message again returns the same state and
  no event. If the node was present, the first handler only clears \<open>isPresent\<close> of
  the node and subtracts one from \<open>bCount\<close> of the node and of its balanced
  ancestors; every other field of the state (the links and child lists of both
  trees, the list managers, the directory) is as before. If the node was a
  tombstone, the state is unchanged and there is no event.
\<close>

theorem C9_delete_twice:
  assumes "reachable s" "nodesByID s i = Some node"
  shows "\<exists>s1 e1 xs. receivePrimitive s (DeleteMessage i) () = Some (Inr (s1, e1)) \<and>
           receivePrimitive s1 (DeleteMessage i) () = Some (Inr (s1, None)) \<and>
           (if isPresent (nodes s node)
            then bpath (\<lambda>a. bParent (nodes s a)) (Some node) xs \<and>
                 s1 = s\<lparr> nodes := \<lambda>a. (nodes s a)\<lparr> isPresent := isPresent (nodes s a) \<and> a \<noteq> node,
                           bCount := bCount (nodes s a) - (if a \<in> set xs then 1 else 0) \<rparr> \<rparr>
            else s1 = s \<and> e1 = None)"
proof (cases "isPresent (nodes s node)")
  case True
  from receive_delete_present[OF reachable_inv[OF assms(1)] assms(2) True, of "()"]
  obtain s1 e1 xs where r: "receive_delete s i () = Some (Inr (s1, Some e1))"
    and xs: "bpath (bp s) (Some node) xs"
    and s1: "s1 = s\<lparr> nodes := \<lambda>a. (nodes s a)\<lparr> isPresent := isPresent (nodes s a) \<and> a \<noteq> node,
                     bCount := bCount (nodes s a) - (if a \<in> set xs then 1 else 0) \<rparr> \<rparr>"
    by blast
  have "nodesByID s1 i = Some node" "\<not> isPresent (nodes s1 node)"
    by (subst s1, simp add: assms(2))+
  then have "receive_delete s1 i () = Some (Inr (s1, None))"
    by (simp add: receive_delete_def ok_def)
  moreover have "bp s = (\<lambda>a. bParent (nodes s a))" by (simp add: fun_eq_iff bp_def)
  ultimately show ?thesis using r xs s1 True by (auto simp del: state.simps node.simps)
next
  case False
  with assms(2) have "receive_delete s i () = Some (Inr (s, None))"
    by (simp add: receive_delete_def ok_def)
  with False show ?thesis by simp
qed

theorem C9_delete_twice_witness:
  "\<exists>s e s1 e1. receivePrimitive init_state (InsertMessage ''a1'' [] False ''A'') () = Some (Inr (s, e)) \<and>
     reachable s \<and> nodesByID s ''a1'' = Some 1 \<and> isPresent (nodes s 1) \<and>
     receivePrimitive s (DeleteMessage ''a1'') () = Some (Inr (s1, e1)) \<and>
     receivePrimitive s1 (DeleteMessage ''a1'') () = Some (Inr (s1, None))"
proof -
  have "case receivePrimitive init_state (InsertMessage ''a1'' [] False ''A'') () of
          Some (Inr (s, e)) \<Rightarrow> nodesByID s ''a1'' = Some 1 \<and> isPresent (nodes s 1) | _ \<Rightarrow> False"
    by (simp add: eval_defs cong: bindR_weak_cong let_weak_cong)
  then obtain s e where
    r: "receivePrimitive init_state (InsertMessage ''a1'' [] False ''A'') () = Some (Inr (s, e))"
    and n: "nodesByID s ''a1'' = Some 1" "isPresent (nodes s 1)"
    by (auto split: option.splits sum.splits)
  have re: "reachable s"
    by (rule reachable_insert[OF reachable_init _ _ r]) (simp_all add: init_state_def)
  from C9_delete_twice[OF re n(1)] n r re show ?thesis by metis
qed


section \<open>The public delete (claim C8)\<close>

lemma sel_nth: "n < cnt Pr t \<Longrightarrow> sel Pr t n = filter Pr (inorder t) ! n"
proof (induction t arbitrary: n)
  case Lf
  then show ?case by simp
next
  case (Nd l a r)
  show ?case
  proof (cases "n < cnt Pr l")
    case True
    with Nd.IH(1)[OF True] show ?thesis by (simp add: nth_append cnt_def)
  next
    case False
    show ?thesis
    proof (cases "Pr a \<and> n = cnt Pr l")
      case True
      then show ?thesis by (simp add: nth_append cnt_def)
    next
      case F2: False
      let ?j = "n - cnt Pr l - (if Pr a then 1 else 0)"
      from F2 False Nd.prems have j: "?j < cnt Pr r" by (auto split: if_splits)
      from Nd.IH(2)[OF j] False F2 show ?thesis
        by (cases "Pr a") (auto simp: nth_append cnt_def nth_Cons')
    qed
  qed
qed

lemma filter_remove_nth:
  "distinct ys \<Longrightarrow> n < length ys \<Longrightarrow>
   filter (\<lambda>y. y \<noteq> ys ! n) ys = take n ys @ drop (Suc n) ys"
proof (induction ys arbitrary: n)
  case Nil
  then show ?case by simp
next
  case (Cons y ys)
  show ?case
  proof (cases n)
    case 0
    with Cons.prems have "filter (\<lambda>x. x \<noteq> y) ys = ys" by (auto simp: filter_id_conv)
    with 0 show ?thesis by simp
  next
    case (Suc m)
    with Cons.prems have "ys ! m \<in> set ys" "y \<notin> set ys" by auto
    then have "y \<noteq> ys ! m" by auto
    with Suc Cons.IH[of m] Cons.prems show ?thesis by simp
  qed
qed

lemma concat_take_units:
  "\<forall>x\<in>set xs. length x = 1 \<Longrightarrow> concat (take n xs) = take n (concat xs)"
proof (induction xs arbitrary: n)
  case Nil
  then show ?case by simp
next
  case (Cons x xs)
  then show ?case by (cases n) (auto simp: take_Cons')
qed

lemma concat_drop_units:
  "\<forall>x\<in>set xs. length x = 1 \<Longrightarrow> concat (drop n xs) = drop n (concat xs)"
proof (induction xs arbitrary: n)
  case Nil
  then show ?case by simp
next
  case (Cons x xs)
  then show ?case by (cases n) (auto simp: drop_Cons')
qed

text \<open>One character is deleted.\<close>

lemma deleteOne_reachable:
  assumes re: "reachable s" and x: "0 \<le> x" "x < length_t s"
    and str: "toString s = Some (Inr str)"
  shows "\<exists>s1 m e. deleteOne s x () = Some (Inr (s1, m, e)) \<and> reachable s1 \<and>
           length_t s1 = length_t s - 1 \<and>
           toString s1 = Some (Inr (take (nat x) str @ drop (Suc (nat x)) str))"
proof -
  note w = reachable_inv[OF re]
  from w obtain t where b: "binv s t" and d: "dir_ok s" and vo: "vals_ok s"
    by (auto simp: wf_state_def)
  let ?a = "sel (pr s) t (nat x)"
  note it = indexToNode_binv[OF b x]
  from d it(2) have dir: "nodesByID s (idv s ?a) = Some ?a" by (simp add: dir_ok_def)
  from it(3) have pa: "isPresent (nodes s ?a)" by (simp add: pr_def)
  from receive_delete_present[OF w dir pa, of "()"] obtain s1 e1 where
    r: "receive_delete s (idv s ?a) () = Some (Inr (s1, Some e1))" by blast
  then have rp: "receivePrimitive s (DeleteMessage (idv s ?a)) () = Some (Inr (s1, Some e1))"
    by simp
  have d1: "deleteOne s x () = Some (Inr (s1, DeleteMessage (idv s ?a), Some e1))"
    using r by (simp add: deleteOne_def it(1) ok_def idv_def Let_def)
  have re1: "reachable s1" by (rule reachable_delete[OF re rp])
  from receive_delete_inv[OF w r] dir have
    b1: "binv s1 t" and w1: "wf_state s1" and p1: "pr s1 = (pr s)(?a := False)"
    and rs: "rest s1 = rest s"
    using b by auto
  from w1 have vo1: "vals_ok s1" by (simp add: wf_state_def)
  note v1 = rest_eqD(2)[OF rs]
  from b have dt: "distinct (inorder t)" and n: "nodes_of t = {..<ncount s}"
    by (auto simp: binv_def bt_def btree_def)
  let ?ys = "filter (pr s) (inorder t)"
  from binv_length(1)[OF b] x have nx: "nat x < length ?ys" by linarith
  then have nc: "nat x < cnt (pr s) t" by (simp add: cnt_def)
  have a: "?a = ?ys ! nat x" by (rule sel_nth[OF nc])
  have "filter (pr s1) (inorder t) = filter (\<lambda>y. y \<noteq> ?a) ?ys"
    unfolding p1 filter_filter by (rule filter_cong) auto
  also have "\<dots> = take (nat x) ?ys @ drop (Suc (nat x)) ?ys"
    unfolding a by (rule filter_remove_nth) (use dt nx in auto)
  finally have f1: "filter (pr s1) (inorder t) = take (nat x) ?ys @ drop (Suc (nat x)) ?ys" .
  have u: "\<forall>v\<in>set (map (valv s) ?ys). length v = 1"
    using vo n by (auto simp: vals_ok_def)
  from toString_binv(1)[OF b vo] str have s0: "str = concat (map (valv s) ?ys)"
    by (simp add: pvals_def)
  have "pvals s1 t = take (nat x) (map (valv s) ?ys) @ drop (Suc (nat x)) (map (valv s) ?ys)"
    by (simp add: pvals_def f1 v1 take_map drop_map)
  then have "concat (pvals s1 t) = take (nat x) str @ drop (Suc (nat x)) str"
    using concat_take_units[OF u, of "nat x"] concat_drop_units[OF u, of "Suc (nat x)"]
    by (simp add: s0)
  with toString_binv[OF b1 vo1]
  have ts: "toString s1 = Some (Inr (take (nat x) str @ drop (Suc (nat x)) str))"
    and l1: "length_t s1 = int (length (take (nat x) str @ drop (Suc (nat x)) str))"
    by simp_all
  from toString_binv(2)[OF b vo] s0 have l0: "length_t s = int (length str)"
    by (simp add: pvals_def)
  from l1 l0 x have "length_t s1 = length_t s - 1" by (simp add: min_def)
  with d1 re1 ts show ?thesis by blast
qed

lemma deleteOne_out_of_bounds:
  assumes "x < 0 \<or> length_t s \<le> x"
  shows "deleteOne s x meta = Some (Inl IndexOutOfBounds)"
  using assms by (auto simp: deleteOne_def indexToNode_def err_def)

lemma toString_total:
  assumes "reachable s"
  shows "\<exists>str. toString s = Some (Inr str) \<and> int (length str) = length_t s"
proof -
  from reachable_inv[OF assms] obtain t where "binv s t" "vals_ok s"
    by (auto simp: wf_state_def)
  from toString_binv[OF this] show ?thesis by blast
qed

text \<open>The loop of \<open>delete\<close>, from the index \<open>i + j\<close> down to \<open>i\<close>.\<close>

declare delete_loop.simps [simp del]

lemma delete_loop_step:
  "0 \<le> j \<Longrightarrow> delete_loop s i j m =
     bindR (deleteOne s (i + j) m) (\<lambda>(s, _, _). delete_loop s i (j - 1) m)"
  "j < 0 \<Longrightarrow> delete_loop s i j m = ok s"
  by (subst delete_loop.simps, simp)+

lemma delete_loop_ok:
  assumes "reachable s" "0 \<le> i" "i + (int j - 1) < length_t s" "toString s = Some (Inr str)"
  shows "\<exists>s'. delete_loop s i (int j - 1) () = Some (Inr s') \<and> reachable s' \<and>
           toString s' = Some (Inr (take (nat i) str @ drop (nat i + j) str))"
  using assms
proof (induction j arbitrary: s str)
  case 0
  then show ?case by (simp add: delete_loop_step(2) ok_def)
next
  case (Suc j)
  let ?x = "i + int j"
  from Suc.prems have x: "0 \<le> ?x" "?x < length_t s" by auto
  from deleteOne_reachable[OF Suc.prems(1) x Suc.prems(4)] obtain s1 m e where
    d: "deleteOne s ?x () = Some (Inr (s1, m, e))" and re: "reachable s1"
    and l: "length_t s1 = length_t s - 1"
    and ts: "toString s1 = Some (Inr (take (nat ?x) str @ drop (Suc (nat ?x)) str))"
    by blast
  from l x have b: "i + (int j - 1) < length_t s1" by simp
  from Suc.IH[OF re Suc.prems(2) b ts] obtain s' where
    dl: "delete_loop s1 i (int j - 1) () = Some (Inr s')" and re': "reachable s'"
    and ts': "toString s' = Some (Inr (take (nat i)
                (take (nat ?x) str @ drop (Suc (nat ?x)) str) @
                drop (nat i + j) (take (nat ?x) str @ drop (Suc (nat ?x)) str)))"
    by blast
  from toString_total[OF Suc.prems(1)] Suc.prems(4) have ls: "int (length str) = length_t s"
    by simp
  have nx: "nat ?x = nat i + j" using Suc.prems(2) by (simp add: nat_add_distrib)
  have len: "nat i + j < length str" using ls x nx by linarith
  have "take (nat i) (take (nat ?x) str @ drop (Suc (nat ?x)) str) = take (nat i) str"
    using len by (simp add: nx min_def)
  moreover have "drop (nat i + j) (take (nat ?x) str @ drop (Suc (nat ?x)) str) =
                 drop (nat i + Suc j) str"
    using len by (simp add: nx min_def)
  ultimately have ts'': "toString s' = Some (Inr (take (nat i) str @ drop (nat i + Suc j) str))"
    using ts' by simp
  have "delete_loop s i (int j) () = Some (Inr s')"
    by (subst delete_loop_step(1)) (simp_all add: d dl)
  then have "delete_loop s i (int (Suc j) - 1) () = Some (Inr s')" by simp
  with re' ts'' show ?case by blast
qed

lemma delete_loop_negative:
  assumes "reachable s" "i < 0" "i + int j < length_t s"
  shows "delete_loop s i (int j) () = Some (Inl IndexOutOfBounds)"
  using assms
proof (induction j arbitrary: s)
  case 0
  then show ?case
    by (subst delete_loop_step(1)) (simp_all add: deleteOne_out_of_bounds)
next
  case (Suc j)
  let ?x = "i + int (Suc j)"
  show ?case
  proof (cases "?x < 0")
    case True
    then show ?thesis
      by (subst delete_loop_step(1)) (simp_all add: deleteOne_out_of_bounds)
  next
    case False
    with Suc.prems have x: "0 \<le> ?x" "?x < length_t s" by auto
    from toString_total[OF Suc.prems(1)] obtain str where "toString s = Some (Inr str)" by blast
    from deleteOne_reachable[OF Suc.prems(1) x this] obtain s1 m e where
      d: "deleteOne s ?x () = Some (Inr (s1, m, e))" and re: "reachable s1"
      and l: "length_t s1 = length_t s - 1"
      by blast
    from l x have "i + int j < length_t s1" by simp
    from Suc.IH[OF re Suc.prems(2) this] d show ?thesis
      by (subst delete_loop_step(1)) simp_all
  qed
qed


text \<open>The replica after one character has been typed into the empty text.\<close>

definition one_char :: state where
  "one_char =
     (case receivePrimitive init_state (InsertMessage ''a1'' [] False ''A'') () of
        Some (Inr (s, e)) \<Rightarrow> s | _ \<Rightarrow> init_state)"

lemma one_char_reachable: "reachable one_char"
proof -
  have "case receivePrimitive init_state (InsertMessage ''a1'' [] False ''A'') () of
          Some (Inr (s, e)) \<Rightarrow> True | _ \<Rightarrow> False"
    by (simp add: eval_defs cong: bindR_weak_cong let_weak_cong)
  then obtain s e where
    r: "receivePrimitive init_state (InsertMessage ''a1'' [] False ''A'') () = Some (Inr (s, e))"
    by (auto split: option.splits sum.splits)
  then have "one_char = s" by (simp add: one_char_def)
  moreover have "reachable s"
    by (rule reachable_insert[OF reachable_init _ _ r]) (simp_all add: init_state_def)
  ultimately show ?thesis by simp
qed

lemma one_char_length: "length_t one_char = 1"
  unfolding one_char_def
  by (simp add: eval_defs cong: bindR_weak_cong let_weak_cong)

text \<open>
  C8 as stated: the index 0 with \<open>k = 1\<close> is outside \<open>[0, length - k)\<close> when the
  text has one character, but \<open>delete(0, 1)\<close> does not raise: it completes and
  leaves the empty text.
\<close>

theorem C8_delete_last_character:
  "reachable one_char \<and> length_t one_char = 1 \<and>
   \<not> ((0::int) \<le> 0 \<and> 0 < length_t one_char - 1) \<and>
   delete one_char 0 1 () \<noteq> Some (Inl IndexOutOfBounds) \<and>
   bindR (delete one_char 0 1 ()) toString = Some (Inr [])"
proof -
  from delete_loop_ok[OF one_char_reachable, of 0 1] one_char_length
    toString_total[OF one_char_reachable]
  obtain s' str where str: "toString one_char = Some (Inr str)" "length str = 1"
    and d: "delete one_char 0 1 () = Some (Inr s')"
    and t: "toString s' = Some (Inr (take 0 str @ drop 1 str))"
    by (auto simp: delete_def)
  from str(2) have "take 0 str @ drop 1 str = []" by simp
  with d t one_char_reachable one_char_length show ?thesis by simp
qed

text \<open>
  C8, amended: the contract is \<open>0 \<le> i\<close> and \<open>i + k \<le> length\<close>. In a reachable
  state a call \<open>delete(i, k)\<close> with \<open>k \<ge> 1\<close> inside the contract completes and
  removes the characters at the indices \<open>i\<close> to \<open>i + k - 1\<close>; a call with \<open>k \<ge> 1\<close>
  outside the contract raises IndexOutOfBounds; a call with \<open>k \<le> 0\<close> returns
  without any change, whatever the index.
\<close>

theorem C8_delete_contract:
  assumes "reachable s"
  shows "(0 \<le> i \<and> 1 \<le> k \<and> i + k \<le> length_t s \<longrightarrow>
            (\<exists>s' str. toString s = Some (Inr str) \<and> delete s i k () = Some (Inr s') \<and>
               toString s' = Some (Inr (take (nat i) str @ drop (nat (i + k)) str)))) \<and>
         (1 \<le> k \<and> (i < 0 \<or> length_t s < i + k) \<longrightarrow>
            delete s i k () = Some (Inl IndexOutOfBounds)) \<and>
         (k \<le> 0 \<longrightarrow> delete s i k () = Some (Inr s))"
proof (intro conjI impI)
  assume a: "0 \<le> i \<and> 1 \<le> k \<and> i + k \<le> length_t s"
  from toString_total[OF assms] obtain str where str: "toString s = Some (Inr str)" by blast
  from a have k: "int (nat k) - 1 = k - 1" "i + (int (nat k) - 1) < length_t s" by auto
  from delete_loop_ok[OF assms _ k(2) str] a obtain s' where
    "delete_loop s i (k - 1) () = Some (Inr s')"
    "toString s' = Some (Inr (take (nat i) str @ drop (nat i + nat k) str))"
    by (auto simp: k(1))
  moreover from a have "nat i + nat k = nat (i + k)" by (simp add: nat_add_distrib)
  ultimately show "\<exists>s' str. toString s = Some (Inr str) \<and> delete s i k () = Some (Inr s') \<and>
               toString s' = Some (Inr (take (nat i) str @ drop (nat (i + k)) str))"
    using str by (auto simp: delete_def)
next
  assume b: "1 \<le> k \<and> (i < 0 \<or> length_t s < i + k)"
  show "delete s i k () = Some (Inl IndexOutOfBounds)"
  proof (cases "length_t s < i + k")
    case True
    with b have "delete_loop s i (k - 1) () = Some (Inl IndexOutOfBounds)"
      by (subst delete_loop_step(1)) (simp_all add: deleteOne_out_of_bounds)
    then show ?thesis by (simp add: delete_def)
  next
    case False
    with b have i: "i < 0" and l: "i + int (nat (k - 1)) < length_t s" by auto
    from delete_loop_negative[OF assms i l] b show ?thesis by (simp add: delete_def)
  qed
next
  assume "k \<le> 0"
  then show "delete s i k () = Some (Inr s)"
    by (simp add: delete_def delete_loop_step(2) ok_def)
qed

theorem C8_delete_contract_witness:
  "reachable one_char \<and> length_t one_char = 1 \<and>
   (\<exists>s' str. toString one_char = Some (Inr str) \<and> delete one_char 0 1 () = Some (Inr s') \<and>
      toString s' = Some (Inr (take (nat 0) str @ drop (nat (0 + 1)) str))) \<and>
   delete one_char 1 1 () = Some (Inl IndexOutOfBounds) \<and>
   delete one_char (- 1) 1 () = Some (Inl IndexOutOfBounds) \<and>
   delete one_char 7 0 () = Some (Inr one_char)"
  using C8_delete_contract[OF one_char_reachable, of 0 1]
    C8_delete_contract[OF one_char_reachable, of 1 1]
    C8_delete_contract[OF one_char_reachable, of "- 1" 1]
    C8_delete_contract[OF one_char_reachable, of 7 0]
    one_char_reachable one_char_length
  by simp

end
